theory Spec2Isabelle
  imports Main "HOL-Library.Sublist"
begin

section \<open>The child process proxy of \<^verbatim>\<open>ChildProcessProxy.ts\<close>\<close>

text \<open>
  The proxy lives on a single-threaded event loop.  Every method of the class is embedded as a
  function on an explicit state: the fields of the class, the part of the forked
  \<^verbatim>\<open>ChildProcess\<close> the class touches (messages sent, the exit listener, the pid), the
  promises the class creates, and the job queue of the promise callbacks it registers.
\<close>

subsection \<open>Values, errors, messages\<close>

text \<open>Values of type \<^verbatim>\<open>any\<close> (arguments, results, the logging context) are opaque to the proxy.\<close>

datatype val = Undefined | Num int | Str string

text \<open>Errors by their class and message: \<^verbatim>\<open>StrykerError\<close> (of \<^verbatim>\<open>../utils/StrykerError\<close>, used
  here only through its constructor), the \<^verbatim>\<open>Error\<close> built from a \<^verbatim>\<open>Rejection\<close> message, and the
  TypeError that JavaScript throws on a property access on \<^verbatim>\<open>undefined\<close>.\<close>

datatype error = StrykerError string | Error string | TypeError

text \<open>Modelled from the spec: the declarations of \<^verbatim>\<open>./messageProtocol\<close> are not among the sources.
  The kinds and fields are those of the spec's message tables, which are the ones the class reads
  and writes.  \<^verbatim>\<open>WorkerMessage\<close>, parent to child: \<^verbatim>\<open>Init\<close> carries loggingContext, plugins,
  requirePath, constructorArgs, workingDirectory; \<^verbatim>\<open>Call\<close> carries correlationId, methodName,
  args.  Messages are recorded as they are given to \<^verbatim>\<open>send\<close>, before \<^verbatim>\<open>serialize\<close>.\<close>

datatype WorkerMessage =
    Init val "string list" string "val list" string
  | Call int string "val list"
  | Dispose

text \<open>Modelled from the spec: \<^verbatim>\<open>ParentMessage\<close> of \<^verbatim>\<open>./messageProtocol\<close>, child to parent, after
  \<^verbatim>\<open>deserialize\<close>.  A correlation id is any number the child sends.  \<^verbatim>\<open>Unidentified\<close> stands for
  any other kind, the \<^verbatim>\<open>default\<close> branch of the switch.\<close>

datatype ParentMessage =
    Initialized
  | Result int val
  | Rejection int string
  | DisposeCompleted
  | Unidentified

fun isCall :: "WorkerMessage \<Rightarrow> bool" where
  "isCall (Call _ _ _) = True"
| "isCall _ = False"

fun isInit :: "WorkerMessage \<Rightarrow> bool" where
  "isInit (Init _ _ _ _ _) = True"
| "isInit _ = False"

fun isDispose :: "WorkerMessage \<Rightarrow> bool" where
  "isDispose Dispose = True"
| "isDispose _ = False"

subsection \<open>Promises, tasks and the state of the proxy\<close>

text \<open>A JavaScript promise is pending, fulfilled with a value, or rejected with an error.\<close>

datatype settle = Pending | Fulfilled val | Rejected error

text \<open>Modelled from the spec: a \<^verbatim>\<open>Task\<close> object (\<^verbatim>\<open>../utils/Task\<close> is not among the sources), the
  spec's completion signal: the flag the class reads as \<^verbatim>\<open>isResolved\<close>, and its \<^verbatim>\<open>promise\<close>, an
  address in the promise store.\<close>

record Task =
  isResolved :: bool
  promise :: nat

text \<open>
  The callbacks the class registers on promises:
  \<^item> \<open>SendCall\<close>: the arrow function of \<^verbatim>\<open>forward\<close> given to \<^verbatim>\<open>initTask.promise.then\<close>, with the
    correlationId, methodName and args it closes over;
  \<^item> \<open>ThenKillWorker d\<close>: \<^verbatim>\<open>.then(killWorker)\<close> of \<^verbatim>\<open>dispose\<close>, \<open>d\<close> the promise that \<^verbatim>\<open>then\<close> returns;
  \<^item> \<open>CatchKillWorker d\<close>: \<^verbatim>\<open>.catch(killWorker)\<close> of \<^verbatim>\<open>dispose\<close>, \<open>d\<close> the promise that \<^verbatim>\<open>catch\<close> returns.
\<close>

datatype reaction =
    SendCall int string "val list"
  | ThenKillWorker nat
  | CatchKillWorker nat

datatype level = Trace | Debug | ErrorLevel

record ChildProcessProxy =
  promises :: "settle list"
  reactions :: "(nat \<times> reaction) list"
  microtasks :: "(reaction \<times> settle) list"
  initTask :: Task
  disposeTask :: "Task option"
  currentError :: "error option"
  workerTasks :: "Task option list"
  logged :: "(level \<times> string) list"
  traceEnabled :: bool
  lastMessagesQueue :: "string list"
  isDisposed :: bool
  sent :: "WorkerMessage list"
  exitListener :: bool
  pid :: nat
  killed :: "nat list"

text \<open>
  \<open>promises\<close> is the store of promise objects, a promise being its index; \<open>reactions\<close> are the
  callbacks registered on promises that are still pending (the promise, the callback), in
  registration order; \<open>microtasks\<close> is the job queue: callbacks whose promise has settled, with
  the outcome they will be called with.  \<open>workerTasks\<close> is the JavaScript array, \<open>None\<close> being a
  hole left by \<^verbatim>\<open>delete\<close>.  \<open>sent\<close> lists the messages given to \<^verbatim>\<open>worker.send\<close>, oldest first;
  \<open>exitListener\<close> tells whether \<^verbatim>\<open>handleUnexpectedExit\<close> is subscribed to the exit event;
  \<open>killed\<close> lists the process ids given to \<^verbatim>\<open>kill\<close>.
\<close>

subsection \<open>Promise operations\<close>

text \<open>Settling a promise happens once: a settled promise ignores further settling.  The callbacks
  registered on it become jobs, in registration order.\<close>

definition settle_promise :: "nat \<Rightarrow> settle \<Rightarrow> ChildProcessProxy \<Rightarrow> ChildProcessProxy" where
  "settle_promise a out s =
     (if a < length (promises s) \<and> promises s ! a = Pending
      then s\<lparr>promises := (promises s)[a := out],
             reactions := filter (\<lambda>(b, r). b \<noteq> a) (reactions s),
             microtasks := microtasks s @ map (\<lambda>(b, r). (r, out)) (filter (\<lambda>(b, r). b = a) (reactions s))\<rparr>
      else s)"

text \<open>\<^verbatim>\<open>p.then(f)\<close> or \<^verbatim>\<open>p.catch(f)\<close>: on a settled promise the callback is queued as a job at once.\<close>

definition register :: "nat \<Rightarrow> reaction \<Rightarrow> ChildProcessProxy \<Rightarrow> ChildProcessProxy" where
  "register a r s =
     (if a < length (promises s) \<and> promises s ! a \<noteq> Pending
      then s\<lparr>microtasks := microtasks s @ [(r, promises s ! a)]\<rparr>
      else s\<lparr>reactions := reactions s @ [(a, r)]\<rparr>)"

definition new_promise :: "settle \<Rightarrow> ChildProcessProxy \<Rightarrow> nat \<times> ChildProcessProxy" where
  "new_promise st s = (length (promises s), s\<lparr>promises := promises s @ [st]\<rparr>)"

definition Promise_reject :: "error \<Rightarrow> ChildProcessProxy \<Rightarrow> nat \<times> ChildProcessProxy" where
  "Promise_reject e s = new_promise (Rejected e) s"

definition Promise_resolve :: "ChildProcessProxy \<Rightarrow> nat \<times> ChildProcessProxy" where
  "Promise_resolve s = new_promise (Fulfilled Undefined) s"

subsection \<open>\<^verbatim>\<open>Task\<close>\<close>

text \<open>Modelled from the spec: the class \<^verbatim>\<open>Task\<close> of \<^verbatim>\<open>../utils/Task\<close> is not among the sources.  The
  spec calls it a completion signal, "a value that will become available exactly once, either as
  a success or a failure (e.g., a future/promise)": a task owns one promise, \<^verbatim>\<open>resolve\<close> and
  \<^verbatim>\<open>reject\<close> settle it, and \<^verbatim>\<open>isResolved\<close> tells whether the task "has not yet resolved".\<close>

definition new_Task :: "ChildProcessProxy \<Rightarrow> Task \<times> ChildProcessProxy" where
  "new_Task s = (let (p, s') = new_promise Pending s in (\<lparr>isResolved = False, promise = p\<rparr>, s'))"

text \<open>Modelled from the spec: \<^verbatim>\<open>task.resolve(value)\<close> settles the promise of the task with the value,
  if it is still pending, and the task counts as resolved.\<close>

definition Task_resolve :: "Task \<Rightarrow> val \<Rightarrow> ChildProcessProxy \<Rightarrow> Task \<times> ChildProcessProxy" where
  "Task_resolve t v s = (t\<lparr>isResolved := True\<rparr>, settle_promise (promise t) (Fulfilled v) s)"

text \<open>Modelled from the spec: \<^verbatim>\<open>task.reject(error)\<close> settles the promise of the task with the error,
  if it is still pending, and the task counts as resolved.\<close>

definition Task_reject :: "Task \<Rightarrow> error \<Rightarrow> ChildProcessProxy \<Rightarrow> Task \<times> ChildProcessProxy" where
  "Task_reject t e s = (t\<lparr>isResolved := True\<rparr>, settle_promise (promise t) (Rejected e) s)"

subsection \<open>Construction and \<^verbatim>\<open>send\<close>\<close>

definition send :: "WorkerMessage \<Rightarrow> ChildProcessProxy \<Rightarrow> ChildProcessProxy" where
  "send message s = s\<lparr>sent := sent s @ [message]\<rparr>"

text \<open>The constructor: fork the worker (its process id \<open>childPid\<close> and the logger's
  \<^verbatim>\<open>isTraceEnabled()\<close> come from the environment), create \<^verbatim>\<open>initTask\<close>, send \<^verbatim>\<open>Init\<close>, subscribe
  the listeners.\<close>

definition create ::
  "string \<Rightarrow> val \<Rightarrow> string list \<Rightarrow> string \<Rightarrow> val list \<Rightarrow> nat \<Rightarrow> bool \<Rightarrow> ChildProcessProxy" where
  "create requirePath loggingContext plugins workingDirectory constructorArgs childPid trace =
     \<lparr>promises = [Pending],
      reactions = [],
      microtasks = [],
      initTask = \<lparr>isResolved = False, promise = 0\<rparr>,
      disposeTask = None,
      currentError = None,
      workerTasks = [],
      logged = [],
      traceEnabled = trace,
      lastMessagesQueue = [],
      isDisposed = False,
      sent = [Init loggingContext plugins requirePath constructorArgs workingDirectory],
      exitListener = True,
      pid = childPid,
      killed = []\<rparr>"

subsection \<open>\<^verbatim>\<open>forward\<close>\<close>

text \<open>Calling \<^verbatim>\<open>proxy.methodName(...args)\<close>; the result is the promise returned and the new state.\<close>

definition forward :: "string \<Rightarrow> val list \<Rightarrow> ChildProcessProxy \<Rightarrow> nat \<times> ChildProcessProxy" where
  "forward methodName args s =
     (case currentError s of
        Some e \<Rightarrow> Promise_reject e s
      | None \<Rightarrow>
          (let (workerTask, s1) = new_Task s;
               s2 = s1\<lparr>workerTasks := workerTasks s1 @ [Some workerTask]\<rparr>;
               correlationId = int (length (workerTasks s2)) - 1;
               s3 = register (promise (initTask s2)) (SendCall correlationId methodName args) s2
           in (promise workerTask, s3)))"

subsection \<open>\<^verbatim>\<open>listenForMessages\<close>\<close>

text \<open>\<^verbatim>\<open>this.workerTasks[i]\<close>: \<^verbatim>\<open>undefined\<close> (here \<open>None\<close>) out of range and at a hole.\<close>

definition task_at :: "Task option list \<Rightarrow> int \<Rightarrow> Task option" where
  "task_at ts i = (if 0 \<le> i \<and> nat i < length ts then ts ! nat i else None)"

text \<open>The message listener.  Calling \<^verbatim>\<open>.resolve\<close> or \<^verbatim>\<open>.reject\<close> on \<^verbatim>\<open>undefined\<close> throws a
  TypeError; the listener then ends with the error and the state of the object at the throw
  (\<open>Inl\<close>), which is the state before the statement, as the property access is its first
  effect.\<close>

fun listenForMessages :: "ParentMessage \<Rightarrow> ChildProcessProxy \<Rightarrow> error \<times> ChildProcessProxy + ChildProcessProxy" where
  "listenForMessages Initialized s =
     (let (t, s1) = Task_resolve (initTask s) Undefined s in Inr (s1\<lparr>initTask := t\<rparr>))"
| "listenForMessages (Result correlationId result) s =
     (case task_at (workerTasks s) correlationId of
        None \<Rightarrow> Inl (TypeError, s)
      | Some t \<Rightarrow>
          (let (t', s1) = Task_resolve t result s
           in Inr (s1\<lparr>workerTasks := (workerTasks s1)[nat correlationId := None]\<rparr>)))"
| "listenForMessages (Rejection correlationId err) s =
     (case task_at (workerTasks s) correlationId of
        None \<Rightarrow> Inl (TypeError, s)
      | Some t \<Rightarrow>
          (let (t', s1) = Task_reject t (Error err) s
           in Inr (s1\<lparr>workerTasks := (workerTasks s1)[nat correlationId := None]\<rparr>)))"
| "listenForMessages DisposeCompleted s =
     (case disposeTask s of
        None \<Rightarrow> Inr s
      | Some t \<Rightarrow> (let (t', s1) = Task_resolve t Undefined s in Inr (s1\<lparr>disposeTask := Some t'\<rparr>)))"
| "listenForMessages Unidentified s =
     Inr (s\<lparr>logged := logged s @ [(ErrorLevel, ''Received unidentified message [object Object]'')]\<rparr>)"

subsection \<open>\<^verbatim>\<open>listenToStdoutAndStderr\<close>\<close>

definition handleData :: "string \<Rightarrow> ChildProcessProxy \<Rightarrow> ChildProcessProxy" where
  "handleData msg s =
     (let q = lastMessagesQueue s @ [msg];
          q' = (if length q > 10 then tl q else q);
          s1 = s\<lparr>lastMessagesQueue := q'\<rparr>
      in if traceEnabled s1 then s1\<lparr>logged := logged s1 @ [(Trace, msg)]\<rparr> else s1)"

subsection \<open>\<^verbatim>\<open>handleUnexpectedExit\<close>\<close>

text \<open>Decimal rendering of a number in a template literal; \<^verbatim>\<open>null\<close> renders as "null".\<close>

definition digit :: "nat \<Rightarrow> char" where
  "digit d = ''0123456789'' ! d"

fun decimal :: "nat \<Rightarrow> string \<Rightarrow> string" where
  "decimal n acc = (if 10 \<le> n then decimal (n div 10) (digit (n mod 10) # acc) else digit n # acc)"

definition Number_toString :: "int \<Rightarrow> string" where
  "Number_toString i = (if 0 \<le> i then decimal (nat i) [] else CHR ''-'' # decimal (nat (- i)) [])"

definition string_of_code :: "int option \<Rightarrow> string" where
  "string_of_code code = (case code of None \<Rightarrow> ''null'' | Some i \<Rightarrow> Number_toString i)"

text \<open>\<^verbatim>\<open>os.EOL\<close> on POSIX.\<close>

definition EOL :: string where
  "EOL = [CHR 0x0A]"

text \<open>\<^verbatim>\<open>Array.prototype.join\<close>.\<close>

fun join :: "string \<Rightarrow> string list \<Rightarrow> string" where
  "join sep [] = []"
| "join sep [x] = x"
| "join sep (x # y # ys) = x @ sep @ join sep (y # ys)"

definition stdoutAndStderr :: "string list \<Rightarrow> string" where
  "stdoutAndStderr messages =
     (if messages \<noteq> []
      then ''Last part of stdout and stderr was: '' @ EOL @ join EOL (map (\<lambda>msg. CHR 0x09 # msg) messages)
      else ''Stdout and stderr were empty.'')"

text \<open>\<^verbatim>\<open>signal || 'without signal'\<close>: \<^verbatim>\<open>null\<close> and the empty string are falsy.\<close>

definition signal_or :: "string option \<Rightarrow> string" where
  "signal_or signal = (case signal of None \<Rightarrow> ''without signal'' | Some sg \<Rightarrow> if sg = [] then ''without signal'' else sg)"

definition exit_description :: "int option \<Rightarrow> string option \<Rightarrow> string list \<Rightarrow> string" where
  "exit_description code signal messages =
     ''Child process exited unexpectedly with exit code '' @ string_of_code code
       @ '' ('' @ signal_or signal @ ''). '' @ stdoutAndStderr messages"

definition exit_error :: "int option \<Rightarrow> error" where
  "exit_error code = StrykerError (''Child process exited unexpectedly (code '' @ string_of_code code @ '')'')"

text \<open>\<^verbatim>\<open>.filter(task => !task.isResolved).forEach(task => task.reject(e))\<close> over the array; holes are
  skipped.  The tasks are objects, so the rejected ones are the ones in the array.\<close>

fun reject_unresolved ::
  "error \<Rightarrow> Task option list \<Rightarrow> ChildProcessProxy \<Rightarrow> Task option list \<times> ChildProcessProxy" where
  "reject_unresolved e [] s = ([], s)"
| "reject_unresolved e (None # ts) s =
     (let (ts', s') = reject_unresolved e ts s in (None # ts', s'))"
| "reject_unresolved e (Some t # ts) s =
     (if isResolved t
      then (let (ts', s') = reject_unresolved e ts s in (Some t # ts', s'))
      else (let (t', s1) = Task_reject t e s;
                (ts', s2) = reject_unresolved e ts s1
            in (Some t' # ts', s2)))"

definition handleUnexpectedExit :: "int option \<Rightarrow> string option \<Rightarrow> ChildProcessProxy \<Rightarrow> ChildProcessProxy" where
  "handleUnexpectedExit code signal s =
     (let s1 = s\<lparr>logged := logged s @ [(Debug, exit_description code signal (lastMessagesQueue s))]\<rparr>;
          s2 = s1\<lparr>currentError := Some (exit_error code)\<rparr>;
          (ts, s3) = reject_unresolved (exit_error code) (workerTasks s2) s2
      in s3\<lparr>workerTasks := ts, isDisposed := True\<rparr>)"

subsection \<open>\<^verbatim>\<open>dispose\<close>\<close>

text \<open>Modelled from the spec: \<^verbatim>\<open>kill\<close> of \<^verbatim>\<open>../utils/objectUtils\<close> is not among the sources.  The
  spec has it "forcibly terminate the child process by process id", an attempt that always
  returns ("duplicate termination attempts are harmless"); the model records the process id.\<close>

definition kill :: "nat \<Rightarrow> ChildProcessProxy \<Rightarrow> ChildProcessProxy" where
  "kill p s = s\<lparr>killed := killed s @ [p]\<rparr>"

definition killWorker :: "ChildProcessProxy \<Rightarrow> ChildProcessProxy" where
  "killWorker s = (kill (pid s) s)\<lparr>isDisposed := True\<rparr>"

definition dispose :: "ChildProcessProxy \<Rightarrow> nat \<times> ChildProcessProxy" where
  "dispose s =
     (let s0 = s\<lparr>exitListener := False\<rparr>
      in if isDisposed s0 then Promise_resolve s0
         else (let (t, s1) = new_Task s0;
                   s2 = send Dispose (s1\<lparr>disposeTask := Some t\<rparr>);
                   (p2, s3) = new_promise Pending s2;
                   s4 = register (promise t) (ThenKillWorker p2) s3;
                   (p3, s5) = new_promise Pending s4;
                   s6 = register p2 (CatchKillWorker p3) s5
               in (p3, s6)))"

subsection \<open>The job queue\<close>

text \<open>Running one promise job.  A \<^verbatim>\<open>then\<close> callback runs on fulfilment and passes a rejection on; a
  \<^verbatim>\<open>catch\<close> callback runs on rejection and passes a fulfilment on.  \<^verbatim>\<open>killWorker\<close> returns
  \<^verbatim>\<open>undefined\<close>.  The promise that \<^verbatim>\<open>then\<close> returns in \<^verbatim>\<open>forward\<close> is dropped by the code.\<close>

fun run_job :: "reaction \<times> settle \<Rightarrow> ChildProcessProxy \<Rightarrow> ChildProcessProxy" where
  "run_job (SendCall correlationId methodName args, Fulfilled v) s =
     send (Call correlationId methodName args) s"
| "run_job (SendCall correlationId methodName args, _) s = s"
| "run_job (ThenKillWorker d, Fulfilled v) s = settle_promise d (Fulfilled Undefined) (killWorker s)"
| "run_job (ThenKillWorker d, Rejected e) s = settle_promise d (Rejected e) s"
| "run_job (ThenKillWorker d, Pending) s = s"
| "run_job (CatchKillWorker d, Fulfilled v) s = settle_promise d (Fulfilled v) s"
| "run_job (CatchKillWorker d, Rejected e) s = settle_promise d (Fulfilled Undefined) (killWorker s)"
| "run_job (CatchKillWorker d, Pending) s = s"

text \<open>Draining the job queue, as the event loop does when the call stack is empty.\<close>

function drain :: "ChildProcessProxy \<Rightarrow> ChildProcessProxy" where
  "drain s =
     (case microtasks s of
        [] \<Rightarrow> s
      | job # rest \<Rightarrow> drain (run_job job (s\<lparr>microtasks := rest\<rparr>)))"
  by pat_completeness auto
termination
proof (relation "measure (\<lambda>s. 2 * length (reactions s) + length (microtasks s))")
  show "wf (measure (\<lambda>s. 2 * length (reactions s) + length (microtasks s)))" by simp
next
  fix s :: ChildProcessProxy and job rest
  assume queue: "microtasks s = job # rest"
  let ?m = "\<lambda>s. 2 * length (reactions s) + length (microtasks s)"
  have split: "length (filter (\<lambda>(b, r). b \<noteq> a) xs) + length (filter (\<lambda>(b, r). b = a) xs) = length xs"
    for a :: nat and xs :: "(nat \<times> reaction) list"
    by (induction xs) auto
  have settle: "?m (settle_promise a out u) \<le> ?m u" for a out u
    using split [of a "reactions u"] by (simp add: settle_promise_def)
  have job: "?m (run_job j u) \<le> ?m u" for j u
  proof (cases "(j, u)" rule: run_job.cases)
    case (3 d v u')
    then show ?thesis
      using settle [of d "Fulfilled Undefined" "killWorker u"] by (simp add: killWorker_def kill_def)
  next
    case (7 d e u')
    then show ?thesis
      using settle [of d "Fulfilled Undefined" "killWorker u"] by (simp add: killWorker_def kill_def)
  qed (auto simp: send_def settle)
  show "(run_job job (s\<lparr>microtasks := rest\<rparr>), s) \<in> measure ?m"
    using job [of job "s\<lparr>microtasks := rest\<rparr>"] queue by simp
qed

declare drain.simps [simp del]

subsection \<open>Events\<close>

text \<open>What can happen to a proxy: a method call on \<^verbatim>\<open>proxy\<close>, a message from the child, data on
  stdout or stderr, the exit event of the child (code, signal), a call of \<^verbatim>\<open>dispose()\<close>, and the
  event loop running the queued promise jobs.\<close>

datatype event =
    Invoke string "val list"
  | OnMessage ParentMessage
  | OnData string
  | OnExit "int option" "string option"
  | CallDispose
  | Microtasks

fun step :: "event \<Rightarrow> ChildProcessProxy \<Rightarrow> error \<times> ChildProcessProxy + ChildProcessProxy" where
  "step (Invoke methodName args) s = Inr (snd (forward methodName args s))"
| "step (OnMessage message) s = listenForMessages message s"
| "step (OnData msg) s = Inr (handleData msg s)"
| "step (OnExit code signal) s = Inr (if exitListener s then handleUnexpectedExit code signal s else s)"
| "step CallDispose s = Inr (snd (dispose s))"
| "step Microtasks s = Inr (drain s)"

text \<open>An error thrown by a listener is not caught by the class: the run ends with it, in the
  state the object has at the throw.\<close>

fun run :: "event list \<Rightarrow> ChildProcessProxy \<Rightarrow> error \<times> ChildProcessProxy + ChildProcessProxy" where
  "run [] s = Inr s"
| "run (ev # evs) s = (case step ev s of Inl e \<Rightarrow> Inl e | Inr s' \<Rightarrow> run evs s')"

subsection \<open>The gate on the init promise\<close>

text \<open>What a callback settles when it runs: the promise that \<^verbatim>\<open>then\<close> or \<^verbatim>\<open>catch\<close> returned.\<close>

fun target :: "reaction \<Rightarrow> nat option" where
  "target (SendCall _ _ _) = None"
| "target (ThenKillWorker d) = Some d"
| "target (CatchKillWorker d) = Some d"

fun isSendCall :: "reaction \<Rightarrow> bool" where
  "isSendCall (SendCall _ _ _) = True"
| "isSendCall _ = False"

text \<open>The init promise is the first promise of the store and nothing but \<^verbatim>\<open>initTask\<close> refers to
  it; the callbacks of \<^verbatim>\<open>forward\<close> wait on it alone; while it is pending no \<^verbatim>\<open>Call\<close> has been sent
  and none is queued as a job.\<close>

definition init_gate :: "ChildProcessProxy \<Rightarrow> bool" where
  "init_gate s \<longleftrightarrow>
     promise (initTask s) = 0 \<and> 0 < length (promises s)
   \<and> (\<forall>t. Some t \<in> set (workerTasks s) \<longrightarrow> promise t \<noteq> 0)
   \<and> (\<forall>t. disposeTask s = Some t \<longrightarrow> promise t \<noteq> 0)
   \<and> (\<forall>(a, r) \<in> set (reactions s). target r \<noteq> Some 0 \<and> (isSendCall r \<longrightarrow> a = 0))
   \<and> (\<forall>(r, out) \<in> set (microtasks s). target r \<noteq> Some 0)
   \<and> (promises s ! 0 = Pending \<longrightarrow>
        (\<forall>m \<in> set (sent s). \<not> isCall m) \<and> (\<forall>(r, out) \<in> set (microtasks s). \<not> isSendCall r))"


subsection \<open>Callbacks waiting or queued\<close>

text \<open>The callbacks registered on pending promises and those queued as jobs.\<close>

definition callbacks :: "ChildProcessProxy \<Rightarrow> reaction list" where
  "callbacks s = map snd (reactions s) @ map fst (microtasks s)"


subsection \<open>Reading errors and events\<close>

text \<open>The \<^verbatim>\<open>message\<close> of an error object, and the output chunks among the events of a run, oldest
  first.\<close>

fun message :: "error \<Rightarrow> string" where
  "message (StrykerError m) = m"
| "message (Error m) = m"
| "message TypeError = []"

fun captured :: "event list \<Rightarrow> string list" where
  "captured [] = []"
| "captured (OnData msg # evs) = msg # captured evs"
| "captured (_ # evs) = captured evs"

subsection \<open>References to promises\<close>

text \<open>The promises that the callbacks waiting or queued would settle; the promises of the tasks
  in the table; and the shape of the store in every state: every reference points into the store,
  the promise of a task in the table is referred to by nothing else, and the promise of a task
  that is not resolved is pending.\<close>

definition targets :: "ChildProcessProxy \<Rightarrow> nat set" where
  "targets s = {d. \<exists>r \<in> set (callbacks s). target r = Some d}"

fun task_promises :: "Task option list \<Rightarrow> nat list" where
  "task_promises [] = []"
| "task_promises (None # ts) = task_promises ts"
| "task_promises (Some t # ts) = promise t # task_promises ts"

definition wf_store :: "ChildProcessProxy \<Rightarrow> bool" where
  "wf_store s \<longleftrightarrow>
     promise (initTask s) < length (promises s)
   \<and> (\<forall>t. disposeTask s = Some t \<longrightarrow> promise t < length (promises s))
   \<and> (\<forall>(b, r) \<in> set (reactions s). b < length (promises s))
   \<and> (\<forall>d \<in> targets s. d < length (promises s))
   \<and> (\<forall>a \<in> set (task_promises (workerTasks s)).
          a < length (promises s) \<and> a \<noteq> promise (initTask s) \<and> a \<notin> targets s
        \<and> (\<forall>t. disposeTask s = Some t \<longrightarrow> promise t \<noteq> a))
   \<and> distinct (task_promises (workerTasks s))
   \<and> (\<forall>t. Some t \<in> set (workerTasks s) \<and> \<not> isResolved t \<longrightarrow> promises s ! promise t = Pending)"



text \<open>The callbacks that wait on the promises of a set, in registration order.\<close>

definition keyed :: "nat set \<Rightarrow> ChildProcessProxy \<Rightarrow> (nat \<times> reaction) list" where
  "keyed X s = filter (\<lambda>(b, r). b \<in> X) (reactions s)"

section \<open>Properties\<close>

subsection \<open>The job queue\<close>

lemma drain_empty: "microtasks s = [] \<Longrightarrow> drain s = s"
  by (subst drain.simps) simp

lemma drain_job: "microtasks s = job # rest \<Longrightarrow> drain s = drain (run_job job (s\<lparr>microtasks := rest\<rparr>))"
  by (subst drain.simps) simp

lemma drain_invariant:
  assumes step: "\<And>s job rest. I s \<Longrightarrow> microtasks s = job # rest \<Longrightarrow> I (run_job job (s\<lparr>microtasks := rest\<rparr>))"
    and init: "I s"
  shows "I (drain s)"
  using init
proof (induction s rule: drain.induct)
  case (1 s)
  show ?case
  proof (cases "microtasks s")
    case Nil
    with 1 show ?thesis by (simp add: drain_empty)
  next
    case (Cons job rest)
    then show ?thesis using 1 step by (simp add: drain_job)
  qed
qed

lemma drain_queue_empty: "microtasks (drain s) = []"
proof (induction s rule: drain.induct)
  case (1 s)
  show ?case
  proof (cases "microtasks s")
    case Nil
    then show ?thesis by (simp add: drain_empty)
  next
    case (Cons job rest)
    then show ?thesis using 1 by (simp add: drain_job)
  qed
qed

lemma init_gate_settle:
  "init_gate s \<Longrightarrow> a \<noteq> 0 \<Longrightarrow> init_gate (settle_promise a out s)"
  by (auto simp: init_gate_def settle_promise_def)

lemma settle_keeps0:
  "a \<noteq> 0 \<Longrightarrow> promises (settle_promise a out s) ! 0 = promises s ! 0"
  by (auto simp: settle_promise_def)

lemma init_gate_settle0:
  "init_gate s \<Longrightarrow> out \<noteq> Pending \<Longrightarrow> init_gate (settle_promise 0 out s)"
  by (auto simp: init_gate_def settle_promise_def)

lemma init_gate_register_send:
  "init_gate s \<Longrightarrow> init_gate (register 0 (SendCall i m a) s)"
  by (auto simp: init_gate_def register_def)

lemma init_gate_register_kill:
  "init_gate s \<Longrightarrow> target r = Some d \<Longrightarrow> d \<noteq> 0 \<Longrightarrow> init_gate (register a r s)"
  by (cases r) (auto simp: init_gate_def register_def)

lemma init_gate_new_promise:
  "init_gate s \<Longrightarrow> init_gate (snd (new_promise st s))"
  by (auto simp: init_gate_def new_promise_def nth_append)

subsection \<open>The init gate holds in every state\<close>

lemma init_gate_create: "init_gate (create rp lc pl wd ca cp tr)"
  by (simp add: init_gate_def create_def)

lemma init_gate_fields:
  "init_gate s \<Longrightarrow> init_gate (s\<lparr>logged := l\<rparr>)"
  "init_gate s \<Longrightarrow> init_gate (s\<lparr>lastMessagesQueue := q\<rparr>)"
  "init_gate s \<Longrightarrow> init_gate (s\<lparr>isDisposed := b\<rparr>)"
  "init_gate s \<Longrightarrow> init_gate (s\<lparr>exitListener := b\<rparr>)"
  "init_gate s \<Longrightarrow> init_gate (s\<lparr>currentError := ce\<rparr>)"
  "init_gate s \<Longrightarrow> init_gate (s\<lparr>killed := k\<rparr>)"
  by (simp_all add: init_gate_def)

lemma init_gate_forward: "init_gate s \<Longrightarrow> init_gate (snd (forward m a s))"
proof (cases "currentError s")
  case None
  assume g: "init_gate s"
  let ?s1 = "snd (new_promise Pending s)"
  let ?t = "\<lparr>isResolved = False, promise = length (promises s)\<rparr>"
  have g1: "init_gate ?s1" using g by (rule init_gate_new_promise)
  have g2: "init_gate (?s1\<lparr>workerTasks := workerTasks ?s1 @ [Some ?t]\<rparr>)"
    using g1 g by (auto simp: init_gate_def new_promise_def)
  have "snd (forward m a s) =
      register 0 (SendCall (int (length (workerTasks s))) m a) (?s1\<lparr>workerTasks := workerTasks ?s1 @ [Some ?t]\<rparr>)"
    using None g by (simp add: forward_def new_Task_def new_promise_def init_gate_def)
  then show ?thesis using g2 by (simp add: init_gate_register_send)
next
  case (Some e)
  assume "init_gate s"
  then show ?thesis using Some by (simp add: forward_def Promise_reject_def init_gate_new_promise)
qed

lemma init_gate_reject_unresolved:
  "init_gate s \<Longrightarrow> \<forall>t. Some t \<in> set ts \<longrightarrow> promise t \<noteq> 0 \<Longrightarrow>
     init_gate (snd (reject_unresolved e ts s))
     \<and> (\<forall>t. Some t \<in> set (fst (reject_unresolved e ts s)) \<longrightarrow> promise t \<noteq> 0)"
proof (induction e ts s rule: reject_unresolved.induct)
  case (1 e s)
  then show ?case by simp
next
  case (2 e ts s)
  then show ?case by (auto split: prod.splits)
next
  case (3 e t ts s)
  show ?case
  proof (cases "isResolved t")
    case True
    then show ?thesis using 3 by (auto split: prod.splits)
  next
    case False
    have nz: "promise t \<noteq> 0" using 3(4) by simp
    have g: "init_gate (settle_promise (promise t) (Rejected e) s)"
      using 3(3) nz by (rule init_gate_settle)
    have tr: "Task_reject t e s = (t\<lparr>isResolved := True\<rparr>, settle_promise (promise t) (Rejected e) s)"
      by (simp add: Task_reject_def)
    from 3(2)[OF False refl tr[symmetric] g] 3(4)
    show ?thesis using False nz by (auto simp: Task_reject_def split: prod.splits)
  qed
qed

lemma init_gate_workerTasks:
  "init_gate s \<Longrightarrow> \<forall>t. Some t \<in> set ts \<longrightarrow> promise t \<noteq> 0 \<Longrightarrow> init_gate (s\<lparr>workerTasks := ts\<rparr>)"
  by (simp add: init_gate_def)

lemma init_gate_handleUnexpectedExit:
  assumes "init_gate s" shows "init_gate (handleUnexpectedExit c sg s)"
proof -
  let ?s2 = "s\<lparr>logged := logged s @ [(Debug, exit_description c sg (lastMessagesQueue s))],
                currentError := Some (exit_error c)\<rparr>"
  have g2: "init_gate ?s2" using assms by (simp add: init_gate_def)
  have w: "\<forall>t. Some t \<in> set (workerTasks ?s2) \<longrightarrow> promise t \<noteq> 0" using assms by (simp add: init_gate_def)
  from init_gate_reject_unresolved[OF g2 w, of "exit_error c"]
  show ?thesis
    by (auto simp: handleUnexpectedExit_def Let_def init_gate_fields init_gate_workerTasks split: prod.splits)
qed

lemma task_at_Some_mem: "task_at ts i = Some t \<Longrightarrow> Some t \<in> set ts"
  by (metis nth_mem option.distinct(1) task_at_def)

lemma set_update_None: "Some t \<in> set (ts[i := None]) \<Longrightarrow> Some t \<in> set ts"
  by (metis insertE option.distinct(1) set_update_subset_insert subsetD)

lemma init_gate_listenForMessages:
  assumes "init_gate s" and "listenForMessages msg s = Inr s'"
  shows "init_gate s'"
proof (cases msg)
  case Initialized
  then show ?thesis using assms init_gate_settle0[of s "Fulfilled Undefined"]
    by (auto simp: Task_resolve_def init_gate_def)
next
  case (Result i v)
  show ?thesis
  proof (cases "task_at (workerTasks s) i")
    case None
    then show ?thesis using assms Result by simp
  next
    case (Some t)
    then have nz: "promise t \<noteq> 0" using assms(1) task_at_Some_mem by (auto simp: init_gate_def)
    have g: "init_gate (settle_promise (promise t) (Fulfilled v) s)" using assms(1) nz by (rule init_gate_settle)
    have "\<forall>u. Some u \<in> set ((workerTasks (settle_promise (promise t) (Fulfilled v) s))[nat i := None]) \<longrightarrow> promise u \<noteq> 0"
      using g set_update_None by (fastforce simp: init_gate_def)
    then show ?thesis using assms(2) Result Some g
      by (auto simp: Task_resolve_def init_gate_workerTasks)
  qed
next
  case (Rejection i e)
  show ?thesis
  proof (cases "task_at (workerTasks s) i")
    case None
    then show ?thesis using assms Rejection by simp
  next
    case (Some t)
    then have nz: "promise t \<noteq> 0" using assms(1) task_at_Some_mem by (auto simp: init_gate_def)
    have g: "init_gate (settle_promise (promise t) (Rejected (Error e)) s)" using assms(1) nz by (rule init_gate_settle)
    have "\<forall>u. Some u \<in> set ((workerTasks (settle_promise (promise t) (Rejected (Error e)) s))[nat i := None]) \<longrightarrow> promise u \<noteq> 0"
      using g set_update_None by (fastforce simp: init_gate_def)
    then show ?thesis using assms(2) Rejection Some g
      by (auto simp: Task_reject_def init_gate_workerTasks)
  qed
next
  case DisposeCompleted
  show ?thesis
  proof (cases "disposeTask s")
    case None
    then show ?thesis using assms DisposeCompleted by simp
  next
    case (Some t)
    then have nz: "promise t \<noteq> 0" using assms(1) by (auto simp: init_gate_def)
    have g: "init_gate (settle_promise (promise t) (Fulfilled Undefined) s)" using assms(1) nz by (rule init_gate_settle)
    then have "init_gate ((settle_promise (promise t) (Fulfilled Undefined) s)\<lparr>disposeTask := Some (t\<lparr>isResolved := True\<rparr>)\<rparr>)"
      using nz by (simp add: init_gate_def)
    then show ?thesis using assms(2) DisposeCompleted Some by (auto simp: Task_resolve_def)
  qed
next
  case Unidentified
  then show ?thesis using assms by (auto simp: init_gate_fields)
qed

lemma init_gate_handleData: "init_gate s \<Longrightarrow> init_gate (handleData msg s)"
  by (simp add: handleData_def Let_def init_gate_def)

lemma init_gate_dispose: assumes "init_gate s" shows "init_gate (snd (dispose s))"
proof (cases "isDisposed s")
  case True
  then show ?thesis using assms
    by (simp add: dispose_def Promise_resolve_def init_gate_new_promise init_gate_fields)
next
  case False
  then show ?thesis using assms
    by (auto simp: dispose_def Let_def new_Task_def new_promise_def register_def send_def init_gate_def nth_append)
qed

lemma init_gate_run_job:
  assumes "init_gate s" and "microtasks s = job # rest"
  shows "init_gate (run_job job (s\<lparr>microtasks := rest\<rparr>))"
proof -
  have g: "init_gate (s\<lparr>microtasks := rest\<rparr>)" using assms by (auto simp: init_gate_def)
  have tg: "target (fst job) \<noteq> Some 0" using assms by (auto simp: init_gate_def)
  have p0: "isSendCall (fst job) \<Longrightarrow> promises s ! 0 \<noteq> Pending" using assms by (auto simp: init_gate_def)
  have gk: "init_gate (killWorker (s\<lparr>microtasks := rest\<rparr>))"
    using g by (simp add: killWorker_def kill_def init_gate_def)
  show ?thesis
  proof (cases "(job, s\<lparr>microtasks := rest\<rparr>)" rule: run_job.cases)
    case (1 i m a v s')
    then show ?thesis using g p0 by (auto simp: send_def init_gate_def)
  next
    case (3 d v s')
    then show ?thesis using gk tg by (auto intro: init_gate_settle)
  next
    case (4 d e s')
    then show ?thesis using g tg by (auto intro: init_gate_settle)
  next
    case (6 d v s')
    then show ?thesis using g tg by (auto intro: init_gate_settle)
  next
    case (7 d e s')
    then show ?thesis using gk tg by (auto intro: init_gate_settle)
  qed (use g in auto)
qed

lemma init_gate_drain: "init_gate s \<Longrightarrow> init_gate (drain s)"
  by (rule drain_invariant[where I = init_gate]) (auto intro: init_gate_run_job)

lemma init_gate_step: "init_gate s \<Longrightarrow> step ev s = Inr s' \<Longrightarrow> init_gate s'"
  by (cases ev)
    (auto simp: init_gate_forward init_gate_handleData init_gate_handleUnexpectedExit
      init_gate_dispose init_gate_drain intro: init_gate_listenForMessages)

lemma init_gate_run: "init_gate s \<Longrightarrow> run evs s = Inr s' \<Longrightarrow> init_gate s'"
proof (induction evs arbitrary: s)
  case Nil
  then show ?case by simp
next
  case (Cons ev evs)
  then show ?case by (auto split: sum.splits dest: init_gate_step)
qed

subsection \<open>Only \<^verbatim>\<open>Initialized\<close> settles the init promise\<close>

lemma keep0_forward: "init_gate s \<Longrightarrow> promises (snd (forward m a s)) ! 0 = promises s ! 0"
  by (auto simp: forward_def Promise_reject_def new_Task_def new_promise_def register_def
      init_gate_def nth_append Let_def split: option.splits)

lemma keep0_reject_unresolved:
  "\<forall>t. Some t \<in> set ts \<longrightarrow> promise t \<noteq> 0 \<Longrightarrow>
     promises (snd (reject_unresolved e ts s)) ! 0 = promises s ! 0"
proof (induction e ts s rule: reject_unresolved.induct)
  case (1 e s)
  then show ?case by simp
next
  case (2 e ts s)
  then show ?case by (auto split: prod.splits)
next
  case (3 e t ts s)
  show ?case
  proof (cases "isResolved t")
    case True
    then show ?thesis using 3 by (auto split: prod.splits)
  next
    case False
    have nz: "promise t \<noteq> 0" using 3(3) by simp
    have tr: "Task_reject t e s = (t\<lparr>isResolved := True\<rparr>, settle_promise (promise t) (Rejected e) s)"
      by (simp add: Task_reject_def)
    from 3(2)[OF False refl tr[symmetric]] 3(3)
    show ?thesis using False nz by (auto simp: Task_reject_def settle_keeps0 split: prod.splits)
  qed
qed

lemma keep0_handleUnexpectedExit:
  assumes "init_gate s" shows "promises (handleUnexpectedExit c sg s) ! 0 = promises s ! 0"
proof -
  let ?s2 = "s\<lparr>logged := logged s @ [(Debug, exit_description c sg (lastMessagesQueue s))],
                currentError := Some (exit_error c)\<rparr>"
  have w: "\<forall>t. Some t \<in> set (workerTasks ?s2) \<longrightarrow> promise t \<noteq> 0" using assms by (simp add: init_gate_def)
  from keep0_reject_unresolved[OF w, of "exit_error c" ?s2]
  show ?thesis
    by (auto simp: handleUnexpectedExit_def Let_def split: prod.splits)
qed

lemma keep0_listenForMessages:
  assumes "init_gate s" and "listenForMessages msg s = Inr s'" and "msg \<noteq> Initialized"
  shows "promises s' ! 0 = promises s ! 0"
proof (cases msg)
  case Initialized
  then show ?thesis using assms by simp
next
  case (Result i v)
  then show ?thesis using assms task_at_Some_mem[of "workerTasks s" i]
    by (auto simp: Task_resolve_def init_gate_def settle_keeps0 split: option.splits)
next
  case (Rejection i e)
  then show ?thesis using assms task_at_Some_mem[of "workerTasks s" i]
    by (auto simp: Task_reject_def init_gate_def settle_keeps0 split: option.splits)
next
  case DisposeCompleted
  then show ?thesis using assms
    by (auto simp: Task_resolve_def init_gate_def settle_keeps0 split: option.splits)
next
  case Unidentified
  then show ?thesis using assms by auto
qed

lemma keep0_dispose: "init_gate s \<Longrightarrow> promises (snd (dispose s)) ! 0 = promises s ! 0"
  by (auto simp: dispose_def Let_def Promise_resolve_def new_Task_def new_promise_def register_def
      send_def init_gate_def nth_append)

lemma keep0_run_job:
  assumes "init_gate s" and "microtasks s = job # rest"
  shows "promises (run_job job (s\<lparr>microtasks := rest\<rparr>)) ! 0 = promises s ! 0"
proof -
  have tg: "target (fst job) \<noteq> Some 0" using assms by (auto simp: init_gate_def)
  show ?thesis
    by (cases "(job, s\<lparr>microtasks := rest\<rparr>)" rule: run_job.cases)
      (use tg in \<open>auto simp: send_def settle_keeps0 killWorker_def kill_def\<close>)
qed

lemma keep0_drain: "init_gate s \<Longrightarrow> promises (drain s) ! 0 = promises s ! 0"
proof -
  assume g: "init_gate s"
  have "init_gate (drain s) \<and> promises (drain s) ! 0 = promises s ! 0"
    by (rule drain_invariant[where I = "\<lambda>u. init_gate u \<and> promises u ! 0 = promises s ! 0"])
      (use g in \<open>auto simp: init_gate_run_job keep0_run_job\<close>)
  then show ?thesis ..
qed

lemma promises_handleData: "promises (handleData msg s) = promises s"
  by (simp add: handleData_def Let_def)

lemma keep0_step:
  "init_gate s \<Longrightarrow> step ev s = Inr s' \<Longrightarrow> ev \<noteq> OnMessage Initialized \<Longrightarrow>
     promises s' ! 0 = promises s ! 0"
  by (cases ev)
    (auto simp: keep0_forward keep0_handleUnexpectedExit keep0_dispose keep0_drain promises_handleData
      dest: keep0_listenForMessages)

lemma keep0_run:
  "init_gate s \<Longrightarrow> run evs s = Inr s' \<Longrightarrow> OnMessage Initialized \<notin> set evs \<Longrightarrow>
     promises s' ! 0 = promises s ! 0"
proof (induction evs arbitrary: s)
  case Nil
  then show ?case by simp
next
  case (Cons ev evs)
  from Cons.prems obtain s1 where s1: "step ev s = Inr s1" "run evs s1 = Inr s'"
    by (auto split: sum.splits)
  have "init_gate s1" using Cons.prems(1) s1(1) by (rule init_gate_step)
  moreover have "promises s1 ! 0 = promises s ! 0" using Cons.prems s1(1) by (auto intro: keep0_step)
  ultimately show ?case using Cons.IH[of s1] s1(2) Cons.prems(3) by simp
qed


lemmas model_defs = create_def forward_def Promise_reject_def Promise_resolve_def new_Task_def
  new_promise_def register_def settle_promise_def Task_resolve_def Task_reject_def send_def task_at_def
  handleData_def handleUnexpectedExit_def dispose_def killWorker_def kill_def Let_def

subsection \<open>What each operation leaves alone\<close>

lemma settle_promise_frame:
  "workerTasks (settle_promise a out s) = workerTasks s"
  "disposeTask (settle_promise a out s) = disposeTask s"
  "initTask (settle_promise a out s) = initTask s"
  "currentError (settle_promise a out s) = currentError s"
  "sent (settle_promise a out s) = sent s"
  "isDisposed (settle_promise a out s) = isDisposed s"
  "killed (settle_promise a out s) = killed s"
  "pid (settle_promise a out s) = pid s"
  "exitListener (settle_promise a out s) = exitListener s"
  "logged (settle_promise a out s) = logged s"
  "lastMessagesQueue (settle_promise a out s) = lastMessagesQueue s"
  "traceEnabled (settle_promise a out s) = traceEnabled s"
  "length (promises (settle_promise a out s)) = length (promises s)"
  by (simp_all add: settle_promise_def)

lemma run_job_frame:
  "workerTasks (run_job j s) = workerTasks s"
  "disposeTask (run_job j s) = disposeTask s"
  "initTask (run_job j s) = initTask s"
  "currentError (run_job j s) = currentError s"
  "pid (run_job j s) = pid s"
  "exitListener (run_job j s) = exitListener s"
  "logged (run_job j s) = logged s"
  "lastMessagesQueue (run_job j s) = lastMessagesQueue s"
  "traceEnabled (run_job j s) = traceEnabled s"
  "length (promises (run_job j s)) = length (promises s)"
  by (cases "(j, s)" rule: run_job.cases; simp add: settle_promise_frame send_def killWorker_def kill_def)+


lemma drain_field:
  assumes "\<And>j u. f (run_job j u) = f u" and "\<And>u ms. f (u\<lparr>microtasks := ms\<rparr>) = f u"
  shows "f (drain s) = f s"
  by (rule drain_invariant[where I = "\<lambda>u. f u = f s"]) (simp_all add: assms)


lemma drain_frame:
  "workerTasks (drain s) = workerTasks s"
  "disposeTask (drain s) = disposeTask s"
  "initTask (drain s) = initTask s"
  "currentError (drain s) = currentError s"
  "pid (drain s) = pid s"
  "exitListener (drain s) = exitListener s"
  "logged (drain s) = logged s"
  "lastMessagesQueue (drain s) = lastMessagesQueue s"
  "traceEnabled (drain s) = traceEnabled s"
  "length (promises (drain s)) = length (promises s)"
  by (rule drain_field; simp add: run_job_frame)+

lemma length_reject_unresolved: "length (fst (reject_unresolved e ts s)) = length ts"
  by (induction e ts s rule: reject_unresolved.induct) (auto split: prod.splits)

lemma handleUnexpectedExit_unfold:
  "handleUnexpectedExit c sg s =
     (let r = reject_unresolved (exit_error c) (workerTasks s)
                (s\<lparr>logged := logged s @ [(Debug, exit_description c sg (lastMessagesQueue s))],
                   currentError := Some (exit_error c)\<rparr>)
      in (snd r)\<lparr>workerTasks := fst r, isDisposed := True\<rparr>)"
  by (simp add: handleUnexpectedExit_def Let_def case_prod_beta)

lemma length_workerTasks_handleUnexpectedExit:
  "length (workerTasks (handleUnexpectedExit c sg s)) = length (workerTasks s)"
  by (simp add: handleUnexpectedExit_unfold Let_def length_reject_unresolved)

lemma length_workerTasks_forward:
  "length (workerTasks s) \<le> length (workerTasks (snd (forward m a s)))"
  by (auto simp: forward_def Promise_reject_def new_Task_def new_promise_def register_def Let_def
      split: option.splits)

lemma length_workerTasks_listenForMessages:
  "listenForMessages msg s = Inr s' \<Longrightarrow> length (workerTasks s') = length (workerTasks s)"
  by (cases msg)
    (auto simp: Task_resolve_def Task_reject_def settle_promise_frame split: option.splits)

lemma workerTasks_dispose: "workerTasks (snd (dispose s)) = workerTasks s"
  by (simp add: dispose_def Let_def Promise_resolve_def new_Task_def new_promise_def register_def send_def)

lemma workerTasks_handleData: "workerTasks (handleData msg s) = workerTasks s"
  by (simp add: handleData_def Let_def)

lemma length_workerTasks_step:
  "step ev s = Inr s' \<Longrightarrow> length (workerTasks s) \<le> length (workerTasks s')"
  by (cases ev)
    (auto simp: length_workerTasks_forward length_workerTasks_handleUnexpectedExit
      workerTasks_dispose workerTasks_handleData drain_frame
      dest: length_workerTasks_listenForMessages)

lemma length_workerTasks_run:
  "run evs s = Inr s' \<Longrightarrow> length (workerTasks s) \<le> length (workerTasks s')"
proof (induction evs arbitrary: s)
  case Nil
  then show ?case by simp
next
  case (Cons ev evs)
  then obtain s1 where "step ev s = Inr s1" "run evs s1 = Inr s'" by (auto split: sum.splits)
  then show ?case using Cons.IH[of s1] length_workerTasks_step[of ev s s1] by simp
qed

lemma forward_healthy:
  assumes "currentError s = None"
  shows "forward m a s =
    (length (promises s),
     register (promise (initTask s)) (SendCall (int (length (workerTasks s))) m a)
       (s\<lparr>promises := promises s @ [Pending],
          workerTasks := workerTasks s @ [Some \<lparr>isResolved = False, promise = length (promises s)\<rparr>]\<rparr>))"
  using assms by (simp add: forward_def new_Task_def new_promise_def)

lemma set_callbacks_register: "set (callbacks (register p r s)) = insert r (set (callbacks s))"
  by (auto simp: callbacks_def register_def)

subsection \<open>C1: no Call before Initialized\<close>

text \<open>C1.  Whatever happens to a proxy after its construction (method calls, messages, output,
  exit events, disposals, promise jobs, in any order): as long as the init promise is pending no
  \<^verbatim>\<open>Call\<close> message has been sent to the child, and the init promise is pending as long as no
  \<^verbatim>\<open>Initialized\<close> message has arrived.  So the \<^verbatim>\<open>Call\<close> of a method invoked before
  \<^verbatim>\<open>Initialized\<close> is sent only after it.\<close>

theorem no_call_before_initialized:
  assumes "run evs (create requirePath loggingContext plugins workingDirectory constructorArgs childPid trace) = Inr s"
  shows "(promises s ! promise (initTask s) = Pending \<longrightarrow> (\<forall>m \<in> set (sent s). \<not> isCall m))
       \<and> (OnMessage Initialized \<notin> set evs \<longrightarrow> promises s ! promise (initTask s) = Pending)"
proof -
  let ?c = "create requirePath loggingContext plugins workingDirectory constructorArgs childPid trace"
  have g0: "init_gate ?c" by (rule init_gate_create)
  have g: "init_gate s" using g0 assms by (rule init_gate_run)
  have a: "promises s ! promise (initTask s) = Pending \<longrightarrow> (\<forall>m \<in> set (sent s). \<not> isCall m)"
    using g by (simp add: init_gate_def)
  have "OnMessage Initialized \<notin> set evs \<Longrightarrow> promises s ! 0 = Pending"
    using keep0_run[OF g0 assms] by (simp add: create_def)
  then show ?thesis using a g by (simp add: init_gate_def)
qed


theorem no_call_before_initialized_witness:
  "\<exists>s. run [Invoke ''foo'' [], Microtasks] (create ''rp'' Undefined [] ''wd'' [] 42 False) = Inr s
     \<and> OnMessage Initialized \<notin> set [Invoke ''foo'' [], Microtasks]
     \<and> promises s ! promise (initTask s) = Pending
     \<and> reactions s = [(0, SendCall 0 ''foo'' [])]
     \<and> filter isCall (sent s) = []
     \<and> map_sum id sent (run [OnMessage Initialized, Microtasks] s)
          = Inr [Init Undefined [] ''rp'' [] ''wd'', Call 0 ''foo'' []]"
proof -
  obtain s where r: "run [Invoke ''foo'' [], Microtasks] (create ''rp'' Undefined [] ''wd'' [] 42 False) = Inr s"
    and q: "reactions s = [(0, SendCall 0 ''foo'' [])]"
    and t: "map_sum id sent (run [OnMessage Initialized, Microtasks] s)
          = Inr [Init Undefined [] ''rp'' [] ''wd'', Call 0 ''foo'' []]"
    by (simp add: model_defs drain.simps)
  have n: "OnMessage Initialized \<notin> set [Invoke ''foo'' [], Microtasks]" by simp
  from no_call_before_initialized[OF r] n
  have "promises s ! promise (initTask s) = Pending" and "\<forall>m \<in> set (sent s). \<not> isCall m" by auto
  then show ?thesis using r q n t by (auto simp: filter_empty_conv)
qed

subsection \<open>C2: calls on a crashed proxy\<close>

text \<open>C2.  A method call made while a fatal error is cached returns a promise that is already
  rejected with that cached error; the call adds no record to \<^verbatim>\<open>workerTasks\<close>, sends nothing to the
  child, and registers or queues no callback.  The only change of the state is the new, rejected
  promise.\<close>

theorem forward_when_crashed:
  assumes "currentError s = Some e" and "forward methodName args s = (p, s')"
  shows "promises s' ! p = Rejected e
       \<and> promises s' = promises s @ [Rejected e]
       \<and> workerTasks s' = workerTasks s
       \<and> sent s' = sent s
       \<and> reactions s' = reactions s
       \<and> microtasks s' = microtasks s"
  using assms by (auto simp: forward_def Promise_reject_def new_promise_def)

theorem forward_when_crashed_witness:
  "\<exists>s p s'. run [Invoke ''first'' [], OnExit (Some 1) None] (create ''rp'' Undefined [] ''wd'' [] 42 False) = Inr s
     \<and> currentError s = Some (StrykerError ''Child process exited unexpectedly (code 1)'')
     \<and> forward ''second'' [Num 7] s = (p, s')
     \<and> promises s' ! p = Rejected (StrykerError ''Child process exited unexpectedly (code 1)'')
     \<and> workerTasks s' = workerTasks s \<and> sent s' = sent s"
proof -
  let ?e = "StrykerError ''Child process exited unexpectedly (code 1)''"
  obtain s where r: "run [Invoke ''first'' [], OnExit (Some 1) None] (create ''rp'' Undefined [] ''wd'' [] 42 False) = Inr s"
    and c: "currentError s = Some ?e"
    by (simp add: model_defs exit_error_def string_of_code_def Number_toString_def digit_def)
  obtain p s' where f: "forward ''second'' [Num 7] s = (p, s')" by (cases "forward ''second'' [Num 7] s")
  from forward_when_crashed[OF c f] show ?thesis using r c f by blast
qed

subsection \<open>C9: correlation ids\<close>

text \<open>C9.  A call on a healthy proxy takes as correlation id the position at the end of the table,
  which was free, and puts its record there.  Of two calls on a healthy proxy, whatever happens in
  between, the later one gets the strictly greater id: an id is never used twice.  A \<^verbatim>\<open>Result\<close>
  or \<^verbatim>\<open>Rejection\<close> for an id that has a record removes the record from the table.\<close>

theorem correlation_ids_increase:
  assumes "currentError s1 = None" and "forward m1 a1 s1 = (p1, s1')"
    and "run evs s1' = Inr s2"
    and "currentError s2 = None" and "forward m2 a2 s2 = (p2, s2')"
  shows "\<exists>i1 i2. i1 < i2
      \<and> set (callbacks s1') = insert (SendCall i1 m1 a1) (set (callbacks s1))
      \<and> set (callbacks s2') = insert (SendCall i2 m2 a2) (set (callbacks s2))
      \<and> task_at (workerTasks s1) i1 = None
      \<and> task_at (workerTasks s1') i1 = Some \<lparr>isResolved = False, promise = p1\<rparr>
      \<and> task_at (workerTasks s2) i2 = None
      \<and> task_at (workerTasks s2') i2 = Some \<lparr>isResolved = False, promise = p2\<rparr>
      \<and> (\<forall>i t v. task_at (workerTasks s2) i = Some t \<longrightarrow>
            (\<exists>u. listenForMessages (Result i v) s2 = Inr u
                \<and> workerTasks u = (workerTasks s2)[nat i := None] \<and> task_at (workerTasks u) i = None))
      \<and> (\<forall>i t e. task_at (workerTasks s2) i = Some t \<longrightarrow>
            (\<exists>u. listenForMessages (Rejection i e) s2 = Inr u
                \<and> workerTasks u = (workerTasks s2)[nat i := None] \<and> task_at (workerTasks u) i = None))"
proof -
  let ?i1 = "int (length (workerTasks s1))" and ?i2 = "int (length (workerTasks s2))"
  have f1: "p1 = length (promises s1)"
       "s1' = register (promise (initTask s1)) (SendCall ?i1 m1 a1)
          (s1\<lparr>promises := promises s1 @ [Pending],
              workerTasks := workerTasks s1 @ [Some \<lparr>isResolved = False, promise = length (promises s1)\<rparr>]\<rparr>)"
    using forward_healthy[OF assms(1), of m1 a1] assms(2) by simp_all
  have f2: "p2 = length (promises s2)"
       "s2' = register (promise (initTask s2)) (SendCall ?i2 m2 a2)
          (s2\<lparr>promises := promises s2 @ [Pending],
              workerTasks := workerTasks s2 @ [Some \<lparr>isResolved = False, promise = length (promises s2)\<rparr>]\<rparr>)"
    using forward_healthy[OF assms(4), of m2 a2] assms(5) by simp_all
  have w1: "workerTasks s1' = workerTasks s1 @ [Some \<lparr>isResolved = False, promise = p1\<rparr>]"
    using f1 by (simp add: register_def)
  have w2: "workerTasks s2' = workerTasks s2 @ [Some \<lparr>isResolved = False, promise = p2\<rparr>]"
    using f2 by (simp add: register_def)
  have lt: "?i1 < ?i2" using length_workerTasks_run[OF assms(3)] w1 by simp
  have c1: "set (callbacks s1') = insert (SendCall ?i1 m1 a1) (set (callbacks s1))"
    by (subst f1(2), subst set_callbacks_register) (simp add: callbacks_def)
  have c2: "set (callbacks s2') = insert (SendCall ?i2 m2 a2) (set (callbacks s2))"
    by (subst f2(2), subst set_callbacks_register) (simp add: callbacks_def)
  have t1: "task_at (workerTasks s1) ?i1 = None" "task_at (workerTasks s1') ?i1 = Some \<lparr>isResolved = False, promise = p1\<rparr>"
    using w1 by (simp_all add: task_at_def)
  have t2: "task_at (workerTasks s2) ?i2 = None" "task_at (workerTasks s2') ?i2 = Some \<lparr>isResolved = False, promise = p2\<rparr>"
    using w2 by (simp_all add: task_at_def)
  have res: "\<exists>u. listenForMessages (Result i v) s2 = Inr u
                \<and> workerTasks u = (workerTasks s2)[nat i := None] \<and> task_at (workerTasks u) i = None"
    if "task_at (workerTasks s2) i = Some t" for i t v
    using that by (auto simp: Task_resolve_def settle_promise_frame task_at_def split: if_splits)
  have rej: "\<exists>u. listenForMessages (Rejection i e) s2 = Inr u
                \<and> workerTasks u = (workerTasks s2)[nat i := None] \<and> task_at (workerTasks u) i = None"
    if "task_at (workerTasks s2) i = Some t" for i t e
    using that by (auto simp: Task_reject_def settle_promise_frame task_at_def split: if_splits)
  show ?thesis
    using lt c1 c2 t1 t2 res rej by blast
qed

theorem correlation_ids_increase_witness:
  "\<exists>p1 s1' s2 p2 s2' u.
     forward ''slow'' [] (create ''rp'' Undefined [] ''wd'' [] 42 False) = (p1, s1')
   \<and> run [Invoke ''mid'' [], OnMessage Initialized, Microtasks, OnMessage (Result 0 (Num 5))] s1' = Inr s2
   \<and> currentError s2 = None
   \<and> workerTasks s2 = [None, Some \<lparr>isResolved = False, promise = 2\<rparr>]
   \<and> forward ''fast'' [Num 1] s2 = (p2, s2')
   \<and> SendCall 0 ''slow'' [] \<in> set (callbacks s1')
   \<and> SendCall 2 ''fast'' [Num 1] \<in> set (callbacks s2')
   \<and> task_at (workerTasks s2') 2 = Some \<lparr>isResolved = False, promise = p2\<rparr>
   \<and> listenForMessages (Result 1 (Num 7)) s2 = Inr u
   \<and> workerTasks u = [None, None]"
proof -
  let ?c = "create ''rp'' Undefined [] ''wd'' [] 42 False"
  define p1 where "p1 = fst (forward ''slow'' [] ?c)"
  define s1' where "s1' = snd (forward ''slow'' [] ?c)"
  have f1: "forward ''slow'' [] ?c = (p1, s1')" by (simp add: p1_def s1'_def)
  have h1: "currentError ?c = None" by (simp add: create_def)
  have w1: "workerTasks s1' = [Some \<lparr>isResolved = False, promise = 1\<rparr>]"
    unfolding s1'_def by (simp add: model_defs)
  obtain s2 where r: "run [Invoke ''mid'' [], OnMessage Initialized, Microtasks, OnMessage (Result 0 (Num 5))] s1' = Inr s2"
    and h2: "currentError s2 = None" and w2: "workerTasks s2 = [None, Some \<lparr>isResolved = False, promise = 2\<rparr>]"
    unfolding s1'_def by (simp add: model_defs drain.simps)
  obtain p2 s2' where f2: "forward ''fast'' [Num 1] s2 = (p2, s2')" by (cases "forward ''fast'' [Num 1] s2")
  from correlation_ids_increase[OF h1 f1 r h2 f2]
  obtain i1 i2 where i: "i1 < i2"
      "set (callbacks s1') = insert (SendCall i1 ''slow'' []) (set (callbacks ?c))"
      "set (callbacks s2') = insert (SendCall i2 ''fast'' [Num 1]) (set (callbacks s2))"
      "task_at (workerTasks s1') i1 = Some \<lparr>isResolved = False, promise = p1\<rparr>"
      "task_at (workerTasks s2) i2 = None"
      "task_at (workerTasks s2') i2 = Some \<lparr>isResolved = False, promise = p2\<rparr>"
    and rem: "\<forall>i t v. task_at (workerTasks s2) i = Some t \<longrightarrow>
            (\<exists>u. listenForMessages (Result i v) s2 = Inr u
                \<and> workerTasks u = (workerTasks s2)[nat i := None] \<and> task_at (workerTasks u) i = None)"
    by blast
  have i1: "i1 = 0" using i(4) w1 by (auto simp: task_at_def split: if_splits)
  have "0 \<le> i2" "\<not> nat i2 < 2" using i(1,5) i1 w2 by (auto simp: task_at_def split: if_splits)
  moreover have "nat i2 < 3" using i(6) f2 h2 w2
    by (auto simp: forward_healthy register_def task_at_def split: if_splits)
  ultimately have i2: "i2 = 2" by arith
  have t1: "task_at (workerTasks s2) 1 = Some \<lparr>isResolved = False, promise = 2\<rparr>"
    using w2 by (simp add: task_at_def)
  obtain u where u: "listenForMessages (Result 1 (Num 7)) s2 = Inr u" "workerTasks u = (workerTasks s2)[nat 1 := None]"
    using rem[rule_format, OF t1, of "Num 7"] by blast
  have "workerTasks u = [None, None]" using u(2) w2 by simp
  then show ?thesis using f1 r h2 w2 f2 i(2,3,6) i1 i2 u(1) by auto
qed

subsection \<open>C10: DisposeCompleted without a disposal\<close>

lemma disposeTask_step:
  "step ev s = Inr s' \<Longrightarrow> ev \<noteq> CallDispose \<Longrightarrow> disposeTask s = None \<Longrightarrow> disposeTask s' = None"
proof (cases ev)
  case (Invoke m a)
  assume "step ev s = Inr s'" "disposeTask s = None"
  then show ?thesis using Invoke
    by (auto simp: forward_def Promise_reject_def new_Task_def new_promise_def register_def Let_def
        split: option.splits)
next
  case (OnMessage msg)
  assume "step ev s = Inr s'" "disposeTask s = None"
  then show ?thesis using OnMessage
    by (cases msg) (auto simp: Task_resolve_def Task_reject_def settle_promise_frame split: option.splits)
next
  case (OnData d)
  assume "step ev s = Inr s'" "disposeTask s = None"
  then show ?thesis using OnData by (auto simp: handleData_def Let_def)
next
  case (OnExit c sg)
  assume a: "step ev s = Inr s'" "disposeTask s = None"
  have "disposeTask (snd (reject_unresolved e ts u)) = disposeTask u" for e ts u
    by (induction e ts u rule: reject_unresolved.induct)
      (auto simp: Task_reject_def settle_promise_frame split: prod.splits)
  then show ?thesis using OnExit a by (auto simp: handleUnexpectedExit_unfold Let_def)
next
  case CallDispose
  assume "ev \<noteq> CallDispose"
  then show ?thesis using CallDispose by simp
next
  case Microtasks
  assume "step ev s = Inr s'" "disposeTask s = None"
  then show ?thesis using Microtasks by (auto simp: drain_frame)
qed

lemma disposeTask_run:
  "run evs s = Inr s' \<Longrightarrow> CallDispose \<notin> set evs \<Longrightarrow> disposeTask s = None \<Longrightarrow> disposeTask s' = None"
proof (induction evs arbitrary: s)
  case Nil
  then show ?case by simp
next
  case (Cons ev evs)
  then obtain s1 where "step ev s = Inr s1" "run evs s1 = Inr s'" by (auto split: sum.splits)
  then show ?case using Cons.IH[of s1] Cons.prems disposeTask_step[of ev s s1] by auto
qed


text \<open>C10.  As long as \<^verbatim>\<open>dispose()\<close> has never been called there is no dispose task, and a
  \<^verbatim>\<open>DisposeCompleted\<close> message leaves the whole state as it is and raises nothing.\<close>

theorem dispose_completed_without_disposal:
  assumes "run evs (create requirePath loggingContext plugins workingDirectory constructorArgs childPid trace) = Inr s"
    and "CallDispose \<notin> set evs"
  shows "disposeTask s = None \<and> listenForMessages DisposeCompleted s = Inr s"
proof -
  have "disposeTask s = None"
    using disposeTask_run[OF assms] by (simp add: create_def)
  then show ?thesis by simp
qed

theorem dispose_completed_without_disposal_witness:
  "\<exists>s. run [Invoke ''foo'' [], OnMessage Initialized, Microtasks] (create ''rp'' Undefined [] ''wd'' [] 42 False) = Inr s
     \<and> CallDispose \<notin> set [Invoke ''foo'' [], OnMessage Initialized, Microtasks]
     \<and> sent s = [Init Undefined [] ''rp'' [] ''wd'', Call 0 ''foo'' []]
     \<and> listenForMessages DisposeCompleted s = Inr s"
proof -
  obtain s where r: "run [Invoke ''foo'' [], OnMessage Initialized, Microtasks] (create ''rp'' Undefined [] ''wd'' [] 42 False) = Inr s"
    and q: "sent s = [Init Undefined [] ''rp'' [] ''wd'', Call 0 ''foo'' []]"
    by (simp add: model_defs drain.simps)
  have n: "CallDispose \<notin> set [Invoke ''foo'' [], OnMessage Initialized, Microtasks]" by simp
  from dispose_completed_without_disposal[OF r n] show ?thesis using r q n by blast
qed

subsection \<open>The exit handler\<close>

lemma resolved_update: "isResolved t \<Longrightarrow> t\<lparr>isResolved := True\<rparr> = t"
  by (cases t) simp

lemma reject_unresolved_tasks:
  "fst (reject_unresolved e ts s) = map (map_option (\<lambda>t. t\<lparr>isResolved := True\<rparr>)) ts"
  by (induction e ts s rule: reject_unresolved.induct)
    (auto simp: resolved_update Task_reject_def split: prod.splits)

lemma settle_promise_nth:
  "a < length (promises s) \<Longrightarrow>
     promises (settle_promise b out s) ! a = (if a = b \<and> promises s ! a = Pending then out else promises s ! a)"
  by (auto simp: settle_promise_def)

lemma snd_reject_unresolved_None:
  "snd (reject_unresolved e (None # ts) s) = snd (reject_unresolved e ts s)"
  by (simp add: case_prod_beta)

lemma snd_reject_unresolved_Some:
  "snd (reject_unresolved e (Some t # ts) s) =
     (if isResolved t then snd (reject_unresolved e ts s)
      else snd (reject_unresolved e ts (settle_promise (promise t) (Rejected e) s)))"
  by (simp add: case_prod_beta Task_reject_def)

lemma reject_unresolved_field:
  assumes "\<And>a out u. f (settle_promise a out u) = f u"
  shows "f (snd (reject_unresolved e ts s)) = f s"
proof (induction ts arbitrary: s)
  case Nil
  then show ?case by simp
next
  case (Cons x ts)
  then show ?case
    by (cases x)
      (simp_all add: snd_reject_unresolved_None snd_reject_unresolved_Some assms
        del: reject_unresolved.simps)
qed

lemma reject_unresolved_frame:
  "length (promises (snd (reject_unresolved e ts s))) = length (promises s)"
  "currentError (snd (reject_unresolved e ts s)) = currentError s"
  "isDisposed (snd (reject_unresolved e ts s)) = isDisposed s"
  "logged (snd (reject_unresolved e ts s)) = logged s"
  "sent (snd (reject_unresolved e ts s)) = sent s"
  "killed (snd (reject_unresolved e ts s)) = killed s"
  "disposeTask (snd (reject_unresolved e ts s)) = disposeTask s"
  "lastMessagesQueue (snd (reject_unresolved e ts s)) = lastMessagesQueue s"
  by (rule reject_unresolved_field[where f = "\<lambda>u. length (promises u)"], simp add: settle_promise_frame)
     (rule reject_unresolved_field, simp add: settle_promise_frame)+

lemma reject_unresolved_nth:
  "a < length (promises s) \<Longrightarrow>
     promises (snd (reject_unresolved e ts s)) ! a =
       (if promises s ! a = Pending \<and> (\<exists>t. Some t \<in> set ts \<and> \<not> isResolved t \<and> promise t = a)
        then Rejected e else promises s ! a)"
proof (induction ts arbitrary: s)
  case Nil
  then show ?case by simp
next
  case (Cons x ts)
  show ?case
  proof (cases x)
    case None
    then show ?thesis using Cons
      by (simp add: snd_reject_unresolved_None del: reject_unresolved.simps)
  next
    case (Some t)
    show ?thesis
    proof (cases "isResolved t")
      case True
      then show ?thesis using Cons Some
        by (auto simp: snd_reject_unresolved_Some simp del: reject_unresolved.simps)
    next
      case False
      let ?s1 = "settle_promise (promise t) (Rejected e) s"
      have len: "a < length (promises ?s1)" using Cons.prems by (simp add: settle_promise_frame)
      have eq: "snd (reject_unresolved e (x # ts) s) = snd (reject_unresolved e ts ?s1)"
        using False Some by (simp add: snd_reject_unresolved_Some del: reject_unresolved.simps)
      show ?thesis
        unfolding eq Cons.IH[OF len] using False Some Cons.prems by (auto simp: settle_promise_nth)
    qed
  qed
qed


lemma handleUnexpectedExit_nth:
  assumes "a < length (promises s)"
  shows "promises (handleUnexpectedExit code signal s) ! a =
       (if promises s ! a = Pending \<and> (\<exists>t. Some t \<in> set (workerTasks s) \<and> \<not> isResolved t \<and> promise t = a)
        then Rejected (exit_error code) else promises s ! a)"
  using reject_unresolved_nth[of a
      "s\<lparr>logged := logged s @ [(Debug, exit_description code signal (lastMessagesQueue s))],
         currentError := Some (exit_error code)\<rparr>" "exit_error code" "workerTasks s"] assms
  by (simp add: handleUnexpectedExit_unfold Let_def)


subsection \<open>Holes of the table\<close>

lemma hole_forward:
  "i < length (workerTasks s) \<Longrightarrow> workerTasks (snd (forward m a s)) ! i = workerTasks s ! i"
  by (auto simp: forward_def Promise_reject_def new_Task_def new_promise_def register_def Let_def
      nth_append split: option.splits)

lemma hole_update: "i < length ts \<Longrightarrow> ts ! i = None \<Longrightarrow> ts[j := None] ! i = None"
  by (cases "i = j") auto

lemma hole_listenForMessages:
  "listenForMessages msg s = Inr s' \<Longrightarrow> i < length (workerTasks s) \<Longrightarrow> workerTasks s ! i = None
    \<Longrightarrow> workerTasks s' ! i = None"
  by (cases msg)
    (auto simp: Task_resolve_def Task_reject_def settle_promise_frame hole_update
      split: option.splits)

lemma hole_handleUnexpectedExit:
  "i < length (workerTasks s) \<Longrightarrow> workerTasks s ! i = None
    \<Longrightarrow> workerTasks (handleUnexpectedExit c sg s) ! i = None"
  by (simp add: handleUnexpectedExit_unfold Let_def reject_unresolved_tasks)

lemma hole_step:
  "step ev s = Inr s' \<Longrightarrow> i < length (workerTasks s) \<Longrightarrow> workerTasks s ! i = None
    \<Longrightarrow> workerTasks s' ! i = None"
  by (cases ev)
    (auto simp: hole_forward hole_handleUnexpectedExit workerTasks_dispose workerTasks_handleData
      drain_frame dest: hole_listenForMessages)

lemma hole_run:
  "run evs s = Inr s' \<Longrightarrow> i < length (workerTasks s) \<Longrightarrow> workerTasks s ! i = None
    \<Longrightarrow> i < length (workerTasks s') \<and> workerTasks s' ! i = None"
proof (induction evs arbitrary: s)
  case Nil
  then show ?case by simp
next
  case (Cons ev evs)
  then obtain s1 where s1: "step ev s = Inr s1" "run evs s1 = Inr s'" by (auto split: sum.splits)
  have "i < length (workerTasks s1)" using length_workerTasks_step[OF s1(1)] Cons.prems(2) by simp
  moreover have "workerTasks s1 ! i = None" using hole_step[OF s1(1) Cons.prems(2,3)] .
  ultimately show ?case using Cons.IH[OF s1(2)] by simp
qed

lemma unmatched_stays:
  assumes "task_at (workerTasks s) i = None" and "i < int (length (workerTasks s))"
    and "run evs s = Inr s'"
  shows "task_at (workerTasks s') i = None"
proof (cases "0 \<le> i")
  case True
  then have "nat i < length (workerTasks s)" "workerTasks s ! nat i = None"
    using assms(1,2) by (auto simp: task_at_def split: if_splits)
  from hole_run[OF assms(3) this] show ?thesis by (simp add: task_at_def)
next
  case False
  then show ?thesis by (simp add: task_at_def)
qed

lemma run_raises:
  "run evs s = Inr s' \<Longrightarrow> step ev s' = Inl x \<Longrightarrow> run (evs @ ev # evs') s = Inl x"
  by (induction evs arbitrary: s) (auto split: sum.splits)


subsection \<open>C4: a reply that matches no record\<close>

text \<open>C4, as stated, fails: on a new proxy, with an empty table, a \<^verbatim>\<open>Result\<close> for correlation id 0
  is not ignored: the listener throws a TypeError, and the run ends with it.\<close>

theorem unmatched_result_counterexample:
  "listenForMessages (Result 0 (Num 5)) (create ''rp'' Undefined [] ''wd'' [] 42 False)
     = Inl (TypeError, create ''rp'' Undefined [] ''wd'' [] 42 False)
   \<and> run [OnMessage (Result 0 (Num 5)), Invoke ''foo'' []] (create ''rp'' Undefined [] ''wd'' [] 42 False)
     = Inl (TypeError, create ''rp'' Undefined [] ''wd'' [] 42 False)"
  by (simp add: create_def task_at_def)


text \<open>C4, amended.  A \<^verbatim>\<open>Result\<close> or \<^verbatim>\<open>Rejection\<close> whose correlation id has no record in the table
  is negative, or past the end of the table, or at a hole left by an earlier reply.  It makes the
  listener throw a TypeError before it changes anything: the state at the throw is the state
  before the message, so no pending call is affected.  The message is not ignored, and the class
  does not catch the error: whatever run led to the state and whatever follows the message, the
  run ends with the error, in that state.  An id below the end of the table that has no record
  never gets one: a reply for it raises in every later state as well.\<close>

theorem unmatched_id_raises:
  assumes "task_at (workerTasks s) correlationId = None"
  shows "(correlationId < 0 \<or> int (length (workerTasks s)) \<le> correlationId
           \<or> workerTasks s ! nat correlationId = None)
       \<and> listenForMessages (Result correlationId result) s = Inl (TypeError, s)
       \<and> listenForMessages (Rejection correlationId err) s = Inl (TypeError, s)
       \<and> run (OnMessage (Result correlationId result) # evs) s = Inl (TypeError, s)
       \<and> run (OnMessage (Rejection correlationId err) # evs) s = Inl (TypeError, s)
       \<and> (\<forall>evs0 s0. run evs0 s0 = Inr s \<longrightarrow>
            run (evs0 @ OnMessage (Result correlationId result) # evs) s0 = Inl (TypeError, s)
          \<and> run (evs0 @ OnMessage (Rejection correlationId err) # evs) s0 = Inl (TypeError, s))
       \<and> (correlationId < int (length (workerTasks s)) \<longrightarrow>
            (\<forall>evs' s' result' err'. run evs' s = Inr s' \<longrightarrow>
               task_at (workerTasks s') correlationId = None
             \<and> listenForMessages (Result correlationId result') s' = Inl (TypeError, s')
             \<and> listenForMessages (Rejection correlationId err') s' = Inl (TypeError, s')))"
proof -
  have 1: "correlationId < 0 \<or> int (length (workerTasks s)) \<le> correlationId
           \<or> workerTasks s ! nat correlationId = None"
    using assms by (auto simp: task_at_def split: if_splits)
  have 2: "listenForMessages (Result correlationId result) s = Inl (TypeError, s)"
    and 3: "listenForMessages (Rejection correlationId err) s = Inl (TypeError, s)"
    using assms by simp_all
  have 4: "run (OnMessage (Result correlationId result) # evs) s = Inl (TypeError, s)"
    and 5: "run (OnMessage (Rejection correlationId err) # evs) s = Inl (TypeError, s)"
    using 2 3 by simp_all
  have 6: "\<forall>evs0 s0. run evs0 s0 = Inr s \<longrightarrow>
            run (evs0 @ OnMessage (Result correlationId result) # evs) s0 = Inl (TypeError, s)
          \<and> run (evs0 @ OnMessage (Rejection correlationId err) # evs) s0 = Inl (TypeError, s)"
    using 2 3 by (simp add: run_raises)
  have 7: "correlationId < int (length (workerTasks s)) \<longrightarrow>
            (\<forall>evs' s' result' err'. run evs' s = Inr s' \<longrightarrow>
               task_at (workerTasks s') correlationId = None
             \<and> listenForMessages (Result correlationId result') s' = Inl (TypeError, s')
             \<and> listenForMessages (Rejection correlationId err') s' = Inl (TypeError, s'))"
  proof (intro impI allI)
    fix evs' s' result' err'
    assume b: "correlationId < int (length (workerTasks s))" and r: "run evs' s = Inr s'"
    have "task_at (workerTasks s') correlationId = None"
      using assms b r by (rule unmatched_stays)
    then show "task_at (workerTasks s') correlationId = None
             \<and> listenForMessages (Result correlationId result') s' = Inl (TypeError, s')
             \<and> listenForMessages (Rejection correlationId err') s' = Inl (TypeError, s')"
      by simp
  qed
  show ?thesis
    by (rule conjI[OF 1 conjI[OF 2 conjI[OF 3 conjI[OF 4 conjI[OF 5 conjI[OF 6 7]]]]]])
qed

theorem unmatched_id_raises_witness:
  "\<exists>s s'. run [Invoke ''foo'' [], Invoke ''bar'' [], OnMessage Initialized, Microtasks, OnMessage (Result 0 (Num 5))]
          (create ''rp'' Undefined [] ''wd'' [] 42 False) = Inr s
     \<and> workerTasks s = [None, Some \<lparr>isResolved = False, promise = 2\<rparr>]
     \<and> promises s = [Fulfilled Undefined, Fulfilled (Num 5), Pending]
     \<and> task_at (workerTasks s) 0 = None
     \<and> listenForMessages (Result 0 (Num 6)) s = Inl (TypeError, s)
     \<and> listenForMessages (Rejection 0 ''late'') s = Inl (TypeError, s)
     \<and> run [Invoke ''foo'' [], Invoke ''bar'' [], OnMessage Initialized, Microtasks, OnMessage (Result 0 (Num 5)),
            OnMessage (Result 0 (Num 6)), OnMessage (Result 1 (Num 7))]
          (create ''rp'' Undefined [] ''wd'' [] 42 False) = Inl (TypeError, s)
     \<and> run [Invoke ''baz'' [], Microtasks] s = Inr s'
     \<and> length (workerTasks s') = 3
     \<and> listenForMessages (Rejection 0 ''later'') s' = Inl (TypeError, s')"
proof -
  obtain s where r: "run [Invoke ''foo'' [], Invoke ''bar'' [], OnMessage Initialized, Microtasks, OnMessage (Result 0 (Num 5))]
          (create ''rp'' Undefined [] ''wd'' [] 42 False) = Inr s"
    and w: "workerTasks s = [None, Some \<lparr>isResolved = False, promise = 2\<rparr>]"
    and p: "promises s = [Fulfilled Undefined, Fulfilled (Num 5), Pending]"
    by (simp add: model_defs drain.simps)
  have t: "task_at (workerTasks s) 0 = None" using w by (simp add: task_at_def)
  obtain s' where r': "run [Invoke ''baz'' [], Microtasks] s = Inr s'" by simp
  have l: "length (workerTasks s) \<le> length (workerTasks s')"
    using r' by (rule length_workerTasks_run)
  have l3: "length (workerTasks s') = 3"
  proof -
    have "s' = drain (snd (forward ''baz'' [] s))" using r' by simp
    then have "length (workerTasks s') = length (workerTasks (snd (forward ''baz'' [] s)))"
      by (simp add: drain_frame)
    moreover have "currentError s = None"
      using r by (simp add: model_defs drain.simps, auto)
    ultimately show ?thesis using w by (simp add: forward_healthy register_def)
  qed
  note c = unmatched_id_raises[OF t, of "Num 6" "''late''" "[OnMessage (Result 1 (Num 7))]"]
  note c2 = c[THEN conjunct2, THEN conjunct1]
  note c3 = c[THEN conjunct2, THEN conjunct2, THEN conjunct1]
  note c6 = c[THEN conjunct2, THEN conjunct2, THEN conjunct2, THEN conjunct2, THEN conjunct2, THEN conjunct1,
      rule_format, OF r, THEN conjunct1]
  have b: "(0::int) < int (length (workerTasks s))" using w by simp
  note c7 = c[THEN conjunct2, THEN conjunct2, THEN conjunct2, THEN conjunct2, THEN conjunct2, THEN conjunct2,
      rule_format, OF b r', of "Num 0" "''later''", THEN conjunct2, THEN conjunct2]
  have c6': "run [Invoke ''foo'' [], Invoke ''bar'' [], OnMessage Initialized, Microtasks, OnMessage (Result 0 (Num 5)),
            OnMessage (Result 0 (Num 6)), OnMessage (Result 1 (Num 7))]
          (create ''rp'' Undefined [] ''wd'' [] 42 False) = Inl (TypeError, s)"
    using c6 by simp
  show ?thesis using r w p t c2 c3 c6' r' l3 c7 by blast
qed

subsection \<open>The captured output\<close>

lemma run_append:
  "run (evs @ evs') s = (case run evs s of Inl e \<Rightarrow> Inl e | Inr s' \<Rightarrow> run evs' s')"
  by (induction evs arbitrary: s) (auto split: sum.splits)

lemma captured_append: "captured (evs @ evs') = captured evs @ captured evs'"
  by (induction evs rule: captured.induct) auto

lemma lastMessagesQueue_forward: "lastMessagesQueue (snd (forward m a s)) = lastMessagesQueue s"
  by (simp add: forward_def Promise_reject_def new_Task_def new_promise_def register_def Let_def
      split: option.splits)

lemma lastMessagesQueue_listenForMessages:
  "listenForMessages msg s = Inr s' \<Longrightarrow> lastMessagesQueue s' = lastMessagesQueue s"
  by (cases msg) (auto simp: Task_resolve_def Task_reject_def settle_promise_frame split: option.splits)

lemma lastMessagesQueue_handleUnexpectedExit:
  "lastMessagesQueue (handleUnexpectedExit c sg s) = lastMessagesQueue s"
  by (simp add: handleUnexpectedExit_unfold Let_def reject_unresolved_frame)

lemma lastMessagesQueue_dispose: "lastMessagesQueue (snd (dispose s)) = lastMessagesQueue s"
  by (simp add: dispose_def Let_def Promise_resolve_def new_Task_def new_promise_def register_def send_def)

lemma lastMessagesQueue_handleData:
  "lastMessagesQueue (handleData msg s) =
     (if length (lastMessagesQueue s) < 10 then lastMessagesQueue s @ [msg]
      else tl (lastMessagesQueue s @ [msg]))"
  by (simp add: handleData_def Let_def)

lemma last_ten_snoc:
  "(if length (drop (length ds - 10) ds) < 10 then drop (length ds - 10) ds @ [d]
    else tl (drop (length ds - 10) ds @ [d])) = drop (length (ds @ [d]) - 10) (ds @ [d])"
proof (cases "length ds < 10")
  case True
  then show ?thesis by simp
next
  case False
  then have "drop (length ds - 10) ds \<noteq> []" by simp
  then have "tl (drop (length ds - 10) ds @ [d]) = drop (Suc (length ds - 10)) ds @ [d]"
    by (simp add: drop_Suc tl_drop)
  moreover have "Suc (length ds - 10) = length ds - 9" using False by arith
  ultimately show ?thesis using False by simp
qed

lemma lastMessagesQueue_step:
  assumes "step ev s = Inr s'" and "lastMessagesQueue s = drop (length ds - 10) ds"
  shows "lastMessagesQueue s' = drop (length (ds @ captured [ev]) - 10) (ds @ captured [ev])"
proof (cases ev)
  case (OnData d)
  then show ?thesis using assms last_ten_snoc[of ds d] by (auto simp: lastMessagesQueue_handleData)
qed (use assms in \<open>auto simp: lastMessagesQueue_forward lastMessagesQueue_handleUnexpectedExit
      lastMessagesQueue_dispose drain_frame dest: lastMessagesQueue_listenForMessages\<close>)

lemma lastMessagesQueue_run:
  "run evs (create rp lc pl wd ca cp tr) = Inr s \<Longrightarrow>
     lastMessagesQueue s = drop (length (captured evs) - 10) (captured evs)"
proof (induction evs arbitrary: s rule: rev_induct)
  case Nil
  then show ?case by (auto simp: create_def)
next
  case (snoc ev evs)
  then obtain s1 where s1: "run evs (create rp lc pl wd ca cp tr) = Inr s1" "step ev s1 = Inr s"
    by (auto simp: run_append split: sum.splits)
  from lastMessagesQueue_step[OF s1(2) snoc.IH[OF s1(1)]]
  show ?case by (simp add: captured_append)
qed

subsection \<open>Disposal\<close>

lemma dispose_fresh:
  assumes "\<not> isDisposed s"
  shows "dispose s =
     (length (promises s) + 2,
      s\<lparr>exitListener := False,
        promises := promises s @ [Pending, Pending, Pending],
        disposeTask := Some \<lparr>isResolved = False, promise = length (promises s)\<rparr>,
        sent := sent s @ [Dispose],
        reactions := reactions s @ [(length (promises s), ThenKillWorker (length (promises s) + 1)),
                                    (length (promises s) + 1, CatchKillWorker (length (promises s) + 2))]\<rparr>)"
  using assms
  by (simp add: dispose_def Let_def new_Task_def new_promise_def register_def send_def nth_append)

lemma dispose_disposed:
  assumes "isDisposed s"
  shows "dispose s = (length (promises s), s\<lparr>exitListener := False, promises := promises s @ [Fulfilled Undefined]\<rparr>)"
  using assms by (simp add: dispose_def Let_def Promise_resolve_def new_promise_def)


lemma isDisposed_handleUnexpectedExit: "isDisposed (handleUnexpectedExit code signal s)"
  by (simp add: handleUnexpectedExit_unfold Let_def)

subsection \<open>The shape of the promise store\<close>

lemma task_promises_append [simp]: "task_promises (ts @ ts') = task_promises ts @ task_promises ts'"
  by (induction ts rule: task_promises.induct) auto

lemma set_task_promises: "set (task_promises ts) = {promise t | t. Some t \<in> set ts}"
  by (induction ts rule: task_promises.induct) auto


lemma set_callbacks_settle: "set (callbacks (settle_promise a out s)) = set (callbacks s)"
proof (cases "a < length (promises s) \<and> promises s ! a = Pending")
  case True
  then have "set (callbacks (settle_promise a out s))
      = snd ` {x \<in> set (reactions s). fst x \<noteq> a} \<union> (fst ` set (microtasks s)
          \<union> snd ` {x \<in> set (reactions s). fst x = a})"
    by (simp add: callbacks_def settle_promise_def split_def image_Un image_image)
  also have "\<dots> = snd ` set (reactions s) \<union> fst ` set (microtasks s)"
    by blast
  finally show ?thesis by (simp add: callbacks_def)
next
  case False
  then have "settle_promise a out s = s" by (auto simp: settle_promise_def)
  then show ?thesis by simp
qed

lemma targets_settle [simp]: "targets (settle_promise a out s) = targets s"
  by (simp add: targets_def set_callbacks_settle)

lemma nth_settle_other:
  "b \<noteq> a \<Longrightarrow> promises (settle_promise a out s) ! b = promises s ! b"
  by (simp add: settle_promise_def)

lemma keys_settle:
  "(b, r) \<in> set (reactions (settle_promise a out s)) \<Longrightarrow> (b, r) \<in> set (reactions s)"
  by (auto simp: settle_promise_def split: if_splits)

lemma wf_store_settle:
  assumes "wf_store s" and "a \<notin> set (task_promises (workerTasks s))"
  shows "wf_store (settle_promise a out s)"
proof -
  have 1: "\<forall>t. Some t \<in> set (workerTasks s) \<and> \<not> isResolved t \<longrightarrow>
      promises (settle_promise a out s) ! promise t = Pending"
  proof (intro allI impI)
    fix t assume t: "Some t \<in> set (workerTasks s) \<and> \<not> isResolved t"
    then have "promise t \<noteq> a" using assms(2) by (auto simp: set_task_promises)
    then show "promises (settle_promise a out s) ! promise t = Pending"
      using assms(1) t by (simp add: nth_settle_other wf_store_def)
  qed
  have 2: "\<forall>(b, r) \<in> set (reactions (settle_promise a out s)). b < length (promises s)"
    using assms(1) keys_settle[of _ _ a out s] by (fastforce simp: wf_store_def)
  show ?thesis
    using assms(1) 1 2 unfolding wf_store_def
    by (simp add: settle_promise_frame)
qed

lemma wf_store_create: "wf_store (create rp lc pl wd ca cp tr)"
  by (simp add: wf_store_def create_def targets_def callbacks_def)

lemma targets_register:
  "targets (register b r s) = targets s \<union> (case target r of None \<Rightarrow> {} | Some d \<Rightarrow> {d})"
  by (auto simp: targets_def set_callbacks_register split: option.splits)

lemma register_frame:
  "promises (register b r s) = promises s"
  "workerTasks (register b r s) = workerTasks s"
  "initTask (register b r s) = initTask s"
  "disposeTask (register b r s) = disposeTask s"
  by (simp_all add: register_def)

lemma keys_register:
  "(c, q) \<in> set (reactions (register b r s)) \<Longrightarrow> (c, q) \<in> set (reactions s) \<or> c = b"
  by (auto simp: register_def split: if_splits)

lemma wf_store_register:
  assumes "wf_store s" and "b < length (promises s)"
    and "\<forall>d. target r = Some d \<longrightarrow> d < length (promises s) \<and> d \<notin> set (task_promises (workerTasks s))"
  shows "wf_store (register b r s)"
proof -
  have k: "\<forall>(c, q) \<in> set (reactions (register b r s)). c < length (promises s)"
    using assms(1,2) keys_register[of _ _ b r s] by (fastforce simp: wf_store_def)
  show ?thesis
    using assms k unfolding wf_store_def
    by (auto simp: register_frame targets_register split: option.splits)
qed

lemma targets_fields [simp]:
  "targets (s\<lparr>promises := ps\<rparr>) = targets s"
  "targets (s\<lparr>workerTasks := ws\<rparr>) = targets s"
  "targets (s\<lparr>exitListener := b\<rparr>) = targets s"
  "targets (s\<lparr>disposeTask := dt\<rparr>) = targets s"
  "targets (s\<lparr>initTask := it\<rparr>) = targets s"
  "targets (s\<lparr>sent := ms\<rparr>) = targets s"
  "targets (s\<lparr>logged := l\<rparr>) = targets s"
  "targets (s\<lparr>currentError := ce\<rparr>) = targets s"
  "targets (s\<lparr>isDisposed := b\<rparr>) = targets s"
  "targets (s\<lparr>killed := k\<rparr>) = targets s"
  "targets (s\<lparr>lastMessagesQueue := q\<rparr>) = targets s"
  by (simp_all add: targets_def callbacks_def)

lemma wf_store_grow:
  assumes "wf_store s" shows "wf_store (s\<lparr>promises := promises s @ ps\<rparr>)"
proof -
  have lt: "\<forall>a \<in> set (task_promises (workerTasks s)). a < length (promises s)"
    using assms by (simp add: wf_store_def)
  have pend: "\<forall>t. Some t \<in> set (workerTasks s) \<and> \<not> isResolved t \<longrightarrow>
      (promises s @ ps) ! promise t = Pending"
    using assms lt by (auto simp: wf_store_def nth_append set_task_promises)
  show ?thesis
    unfolding wf_store_def using assms pend
    by (simp add: wf_store_def) (fastforce simp: trans_less_add1)
qed

lemma wf_store_forward: assumes "wf_store s" shows "wf_store (snd (forward m a s))"
proof (cases "currentError s")
  case (Some e)
  then show ?thesis using wf_store_grow[OF assms, of "[Rejected e]"]
    by (simp add: forward_def Promise_reject_def new_promise_def)
next
  case None
  let ?L = "length (promises s)"
  let ?u = "s\<lparr>promises := promises s @ [Pending],
          workerTasks := workerTasks s @ [Some \<lparr>isResolved = False, promise = ?L\<rparr>]\<rparr>"
  have tu: "targets ?u = targets s" by simp
  have lt: "\<forall>a \<in> set (task_promises (workerTasks s)). a < ?L" using assms by (simp add: wf_store_def)
  have pend: "\<forall>t. Some t \<in> set (workerTasks ?u) \<and> \<not> isResolved t \<longrightarrow> promises ?u ! promise t = Pending"
    using assms lt by (auto simp: wf_store_def nth_append set_task_promises)
  have u: "wf_store ?u"
    unfolding wf_store_def tu using assms pend lt
    by (auto simp: wf_store_def less_SucI)
  have "wf_store (register (promise (initTask s)) (SendCall (int (length (workerTasks s))) m a) ?u)"
    by (rule wf_store_register[OF u]) (use assms in \<open>auto simp: wf_store_def\<close>)
  then show ?thesis by (simp add: forward_healthy[OF None])
qed

lemma wf_store_handleData: "wf_store s \<Longrightarrow> wf_store (handleData msg s)"
  by (simp add: handleData_def Let_def wf_store_def targets_def callbacks_def)

lemma wf_store_dispose: assumes "wf_store s" shows "wf_store (snd (dispose s))"
proof (cases "isDisposed s")
  case True
  have "wf_store (s\<lparr>exitListener := False\<rparr>)" using assms by (simp add: wf_store_def)
  from wf_store_grow[OF this, of "[Fulfilled Undefined]"]
  show ?thesis using True by (simp add: dispose_disposed)
next
  case False
  let ?L = "length (promises s)"
  have lt: "\<forall>a \<in> set (task_promises (workerTasks s)). a < ?L" using assms by (simp add: wf_store_def)
  have tg: "targets (snd (dispose s)) = targets s \<union> {?L + 1, ?L + 2}"
    by (auto simp: dispose_fresh[OF False] targets_def callbacks_def)
  have pend: "\<forall>t. Some t \<in> set (workerTasks s) \<and> \<not> isResolved t \<longrightarrow>
      (promises s @ [Pending, Pending, Pending]) ! promise t = Pending"
    using assms lt by (auto simp: wf_store_def nth_append set_task_promises)
  show ?thesis
    unfolding wf_store_def tg using assms lt pend
    by (auto simp: dispose_fresh[OF False] wf_store_def)
qed

lemma task_promises_nth:
  "i < length ws \<Longrightarrow> ws ! i = Some t \<Longrightarrow> promise t \<in> set (task_promises ws)"
proof -
  assume "i < length ws" "ws ! i = Some t"
  then have "Some t \<in> set ws" by (metis nth_mem)
  then show ?thesis by (auto simp: set_task_promises)
qed

lemma resolved_after_map:
  assumes "Some t \<in> set (map (map_option (\<lambda>t. t\<lparr>isResolved := True\<rparr>)) ts)"
  shows "isResolved t"
proof -
  from assms have "Some t \<in> map_option (\<lambda>t. t\<lparr>isResolved := True\<rparr>) ` set ts" by simp
  then obtain x where "Some t = map_option (\<lambda>t. t\<lparr>isResolved := True\<rparr>) x" by (rule imageE)
  then show ?thesis by (cases x) auto
qed

lemma task_promises_delete:
  "i < length ws \<Longrightarrow> ws ! i = Some t \<Longrightarrow> distinct (task_promises ws) \<Longrightarrow>
     set (task_promises (ws[i := None])) = set (task_promises ws) - {promise t}
   \<and> distinct (task_promises (ws[i := None]))"
proof (induction ws arbitrary: i rule: task_promises.induct)
  case 1
  then show ?case by simp
next
  case (2 ts)
  then show ?case by (cases i) auto
next
  case (3 u ts)
  then show ?case by (cases i) (auto dest: task_promises_nth)
qed

lemma settle_workerTasks_commute:
  "(settle_promise a out s)\<lparr>workerTasks := ws\<rparr> = settle_promise a out (s\<lparr>workerTasks := ws\<rparr>)"
  by (simp add: settle_promise_def)

lemma wf_store_delete:
  assumes "wf_store s" and "task_at (workerTasks s) i = Some t"
  shows "wf_store (s\<lparr>workerTasks := (workerTasks s)[nat i := None]\<rparr>)"
    and "promise t \<notin> set (task_promises ((workerTasks s)[nat i := None]))"
proof -
  have i: "nat i < length (workerTasks s)" "workerTasks s ! nat i = Some t"
    using assms(2) by (auto simp: task_at_def split: if_splits)
  have d: "distinct (task_promises (workerTasks s))" using assms(1) by (simp add: wf_store_def)
  note del = task_promises_delete[OF i d]
  show "promise t \<notin> set (task_promises ((workerTasks s)[nat i := None]))" using del by simp
  have mem: "Some u \<in> set ((workerTasks s)[nat i := None]) \<Longrightarrow> Some u \<in> set (workerTasks s)" for u
    by (rule set_update_None)
  show "wf_store (s\<lparr>workerTasks := (workerTasks s)[nat i := None]\<rparr>)"
    unfolding wf_store_def using assms(1) del mem by (auto simp: wf_store_def)
qed

lemma wf_store_same_promise:
  "wf_store s \<Longrightarrow> promise t = promise (initTask s) \<Longrightarrow> wf_store (s\<lparr>initTask := t\<rparr>)"
  "wf_store s \<Longrightarrow> disposeTask s = Some u \<Longrightarrow> promise t = promise u \<Longrightarrow> wf_store (s\<lparr>disposeTask := Some t\<rparr>)"
  by (auto simp: wf_store_def)

lemma wf_store_listenForMessages:
  assumes "wf_store s" and "listenForMessages msg s = Inr s'"
  shows "wf_store s'"
proof (cases msg)
  case Initialized
  have "promise (initTask s) \<notin> set (task_promises (workerTasks s))"
    using assms(1) by (auto simp: wf_store_def)
  then have "wf_store (settle_promise (promise (initTask s)) (Fulfilled Undefined) s)"
    using assms(1) by (simp add: wf_store_settle)
  then have "wf_store ((settle_promise (promise (initTask s)) (Fulfilled Undefined) s)
      \<lparr>initTask := (initTask s)\<lparr>isResolved := True\<rparr>\<rparr>)"
    by (rule wf_store_same_promise(1)) (simp add: settle_promise_frame)
  then show ?thesis using assms(2) Initialized by (auto simp: Task_resolve_def)
next
  case (Result i v)
  show ?thesis
  proof (cases "task_at (workerTasks s) i")
    case None
    then show ?thesis using assms Result by simp
  next
    case (Some t)
    note d = wf_store_delete[OF assms(1) Some]
    have "wf_store (settle_promise (promise t) (Fulfilled v) (s\<lparr>workerTasks := (workerTasks s)[nat i := None]\<rparr>))"
      by (rule wf_store_settle) (use d in simp_all)
    then show ?thesis using assms(2) Result Some
      by (auto simp: Task_resolve_def settle_workerTasks_commute settle_promise_frame)
  qed
next
  case (Rejection i e)
  show ?thesis
  proof (cases "task_at (workerTasks s) i")
    case None
    then show ?thesis using assms Rejection by simp
  next
    case (Some t)
    note d = wf_store_delete[OF assms(1) Some]
    have "wf_store (settle_promise (promise t) (Rejected (Error e)) (s\<lparr>workerTasks := (workerTasks s)[nat i := None]\<rparr>))"
      by (rule wf_store_settle) (use d in simp_all)
    then show ?thesis using assms(2) Rejection Some
      by (auto simp: Task_reject_def settle_workerTasks_commute settle_promise_frame)
  qed
next
  case DisposeCompleted
  show ?thesis
  proof (cases "disposeTask s")
    case None
    then show ?thesis using assms DisposeCompleted by simp
  next
    case (Some t)
    have "promise t \<notin> set (task_promises (workerTasks s))"
      using assms(1) Some by (auto simp: wf_store_def)
    then have "wf_store (settle_promise (promise t) (Fulfilled Undefined) s)"
      using assms(1) by (simp add: wf_store_settle)
    then have "wf_store ((settle_promise (promise t) (Fulfilled Undefined) s)
        \<lparr>disposeTask := Some (t\<lparr>isResolved := True\<rparr>)\<rparr>)"
      by (rule wf_store_same_promise(2)) (simp_all add: settle_promise_frame Some)
    then show ?thesis using assms(2) DisposeCompleted Some by (auto simp: Task_resolve_def)
  qed
next
  case Unidentified
  then show ?thesis using assms by (auto simp: wf_store_def)
qed

lemma reject_unresolved_invariant:
  assumes "\<And>a out u. P u \<Longrightarrow> P (settle_promise a out u)" and "P s"
  shows "P (snd (reject_unresolved e ts s))"
  using assms(2)
proof (induction ts arbitrary: s)
  case Nil
  then show ?case by simp
next
  case (Cons x ts)
  then show ?case
    by (cases x)
      (simp_all add: snd_reject_unresolved_None snd_reject_unresolved_Some assms(1)
        del: reject_unresolved.simps)
qed

lemma task_promises_resolved:
  "task_promises (map (map_option (\<lambda>t. t\<lparr>isResolved := True\<rparr>)) ts) = task_promises ts"
  by (induction ts rule: task_promises.induct) auto

lemma wf_store_handleUnexpectedExit:
  assumes "wf_store s" shows "wf_store (handleUnexpectedExit c sg s)"
proof -
  let ?u = "s\<lparr>logged := logged s @ [(Debug, exit_description c sg (lastMessagesQueue s))],
               currentError := Some (exit_error c)\<rparr>"
  let ?r = "reject_unresolved (exit_error c) (workerTasks s) ?u"
  let ?ws = "map (map_option (\<lambda>t. t\<lparr>isResolved := True\<rparr>)) (workerTasks s)"
  define P where "P = (\<lambda>u. promise (initTask u) < length (promises u)
      \<and> (\<forall>t. disposeTask u = Some t \<longrightarrow> promise t < length (promises u))
      \<and> (\<forall>(b, r) \<in> set (reactions u). b < length (promises u))
      \<and> (\<forall>d \<in> targets u. d < length (promises u))
      \<and> (\<forall>a \<in> set (task_promises (workerTasks s)).
            a < length (promises u) \<and> a \<noteq> promise (initTask u) \<and> a \<notin> targets u
          \<and> (\<forall>t. disposeTask u = Some t \<longrightarrow> promise t \<noteq> a)))"
  have step: "P (settle_promise a out u)" if "P u" for a out u
  proof -
    have "\<forall>(b, r) \<in> set (reactions (settle_promise a out u)). b < length (promises u)"
      using that keys_settle[of _ _ a out u] unfolding P_def by fastforce
    then show ?thesis using that unfolding P_def by (simp add: settle_promise_frame)
  qed
  have "P ?u" using assms unfolding P_def by (simp add: wf_store_def)
  then have "P (snd ?r)" using step by (rule reject_unresolved_invariant[rotated])
  then have P: "promise (initTask (snd ?r)) < length (promises (snd ?r))
      \<and> (\<forall>t. disposeTask (snd ?r) = Some t \<longrightarrow> promise t < length (promises (snd ?r)))
      \<and> (\<forall>(b, r) \<in> set (reactions (snd ?r)). b < length (promises (snd ?r)))
      \<and> (\<forall>d \<in> targets (snd ?r). d < length (promises (snd ?r)))
      \<and> (\<forall>a \<in> set (task_promises (workerTasks s)).
            a < length (promises (snd ?r)) \<and> a \<noteq> promise (initTask (snd ?r)) \<and> a \<notin> targets (snd ?r)
          \<and> (\<forall>t. disposeTask (snd ?r) = Some t \<longrightarrow> promise t \<noteq> a))"
    unfolding P_def .
  have res: "\<forall>t. Some t \<in> set ?ws \<longrightarrow> isResolved t" using resolved_after_map by blast
  have pend: "\<forall>t. Some t \<in> set ?ws \<and> \<not> isResolved t \<longrightarrow> promises (snd ?r) ! promise t = Pending"
    using res by blast
  have "wf_store ((snd ?r)\<lparr>workerTasks := ?ws, isDisposed := True\<rparr>)"
    unfolding wf_store_def using P pend assms
    by (simp add: task_promises_resolved wf_store_def)
  then show ?thesis
    by (simp add: handleUnexpectedExit_unfold Let_def reject_unresolved_tasks)
qed

lemma wf_store_pop:
  assumes "wf_store s" and "microtasks s = job # rest"
  shows "wf_store (s\<lparr>microtasks := rest\<rparr>)"
    and "targets (s\<lparr>microtasks := rest\<rparr>) \<subseteq> targets s"
    and "\<forall>d. target (fst job) = Some d \<longrightarrow> d \<in> targets s"
proof -
  show sub: "targets (s\<lparr>microtasks := rest\<rparr>) \<subseteq> targets s"
    using assms(2) by (auto simp: targets_def callbacks_def)
  show "\<forall>d. target (fst job) = Some d \<longrightarrow> d \<in> targets s"
    using assms(2) by (auto simp: targets_def callbacks_def)
  show "wf_store (s\<lparr>microtasks := rest\<rparr>)"
    unfolding wf_store_def using assms(1) sub by (auto simp: wf_store_def)
qed

lemma wf_store_killWorker: "wf_store s \<Longrightarrow> wf_store (killWorker s)"
  by (simp add: killWorker_def kill_def wf_store_def)

lemma wf_store_run_job:
  assumes "wf_store s" and "microtasks s = job # rest"
  shows "wf_store (run_job job (s\<lparr>microtasks := rest\<rparr>))"
proof -
  let ?u = "s\<lparr>microtasks := rest\<rparr>"
  note p = wf_store_pop[OF assms]
  have free: "d \<notin> set (task_promises (workerTasks ?u))" if "target (fst job) = Some d" for d
    using that p(3) assms(1) by (auto simp: wf_store_def)
  have k: "wf_store (killWorker ?u)" using p(1) by (rule wf_store_killWorker)
  have wk: "workerTasks (killWorker ?u) = workerTasks ?u" by (simp add: killWorker_def kill_def)
  show ?thesis
  proof (cases "(job, ?u)" rule: run_job.cases)
    case (1 i m a v u)
    then show ?thesis using p(1) by (auto simp: send_def wf_store_def)
  next
    case (3 d v u)
    then have "d \<notin> set (task_promises (workerTasks (killWorker ?u)))" using free wk by simp
    then show ?thesis using 3 k by (auto intro: wf_store_settle)
  next
    case (4 d e u)
    then have "d \<notin> set (task_promises (workerTasks ?u))" using free by simp
    then show ?thesis using 4 p(1) by (auto intro: wf_store_settle)
  next
    case (6 d v u)
    then have "d \<notin> set (task_promises (workerTasks ?u))" using free by simp
    then show ?thesis using 6 p(1) by (auto intro: wf_store_settle)
  next
    case (7 d e u)
    then have "d \<notin> set (task_promises (workerTasks (killWorker ?u)))" using free wk by simp
    then show ?thesis using 7 k by (auto intro: wf_store_settle)
  qed (use p(1) in auto)
qed

lemma wf_store_drain: "wf_store s \<Longrightarrow> wf_store (drain s)"
  by (rule drain_invariant[where I = wf_store]) (auto intro: wf_store_run_job)

lemma wf_store_step: "wf_store s \<Longrightarrow> step ev s = Inr s' \<Longrightarrow> wf_store s'"
  by (cases ev)
    (auto simp: wf_store_forward wf_store_handleData wf_store_handleUnexpectedExit
      wf_store_dispose wf_store_drain intro: wf_store_listenForMessages)

lemma wf_store_run: "wf_store s \<Longrightarrow> run evs s = Inr s' \<Longrightarrow> wf_store s'"
proof (induction evs arbitrary: s)
  case Nil
  then show ?case by simp
next
  case (Cons ev evs)
  then show ?case by (auto split: sum.splits dest: wf_store_step)
qed

lemma wf_store_reachable:
  "run evs (create rp lc pl wd ca cp tr) = Inr s \<Longrightarrow> wf_store s"
  using wf_store_create by (rule wf_store_run)

subsection \<open>Sealed promises stay pending\<close>



















subsection \<open>Promises that cannot be rejected\<close>




lemma callbacks_fields [simp]:
  "callbacks (s\<lparr>promises := ps\<rparr>) = callbacks s"
  "callbacks (s\<lparr>workerTasks := ws\<rparr>) = callbacks s"
  "callbacks (s\<lparr>exitListener := b\<rparr>) = callbacks s"
  "callbacks (s\<lparr>disposeTask := dt\<rparr>) = callbacks s"
  "callbacks (s\<lparr>initTask := it\<rparr>) = callbacks s"
  "callbacks (s\<lparr>sent := ms\<rparr>) = callbacks s"
  "callbacks (s\<lparr>logged := l\<rparr>) = callbacks s"
  "callbacks (s\<lparr>currentError := ce\<rparr>) = callbacks s"
  "callbacks (s\<lparr>isDisposed := b\<rparr>) = callbacks s"
  "callbacks (s\<lparr>killed := k\<rparr>) = callbacks s"
  "callbacks (s\<lparr>lastMessagesQueue := q\<rparr>) = callbacks s"
  by (simp_all add: callbacks_def)











subsection \<open>The callbacks of a disposal stay in place\<close>



lemma keyed_fields [simp]:
  "keyed X (s\<lparr>promises := ps\<rparr>) = keyed X s"
  "keyed X (s\<lparr>workerTasks := ws\<rparr>) = keyed X s"
  "keyed X (s\<lparr>exitListener := b\<rparr>) = keyed X s"
  "keyed X (s\<lparr>disposeTask := dt\<rparr>) = keyed X s"
  "keyed X (s\<lparr>initTask := it\<rparr>) = keyed X s"
  "keyed X (s\<lparr>sent := ms\<rparr>) = keyed X s"
  "keyed X (s\<lparr>logged := l\<rparr>) = keyed X s"
  "keyed X (s\<lparr>currentError := ce\<rparr>) = keyed X s"
  "keyed X (s\<lparr>isDisposed := b\<rparr>) = keyed X s"
  "keyed X (s\<lparr>killed := k\<rparr>) = keyed X s"
  "keyed X (s\<lparr>lastMessagesQueue := q\<rparr>) = keyed X s"
  "keyed X (s\<lparr>microtasks := ms'\<rparr>) = keyed X s"
  by (simp_all add: keyed_def)














subsection \<open>A dispose task that was replaced\<close>




subsection \<open>C3: the unexpected exit of the child\<close>




subsection \<open>C7: what the crash error says\<close>

text \<open>C7, as stated, fails: after the output "boom" and a pending call, an exit with code 1 and
  signal SIGKILL caches, and rejects the call with, the error "Child process exited unexpectedly
  (code 1)", which names neither the signal nor the output.\<close>

theorem crash_error_counterexample:
  "currentError (handleUnexpectedExit (Some 1) (Some ''SIGKILL'')
       (snd (forward ''foo'' [] (handleData ''boom'' (create ''rp'' Undefined [] ''wd'' [] 42 False)))))
     = Some (StrykerError ''Child process exited unexpectedly (code 1)'')
   \<and> promises (handleUnexpectedExit (Some 1) (Some ''SIGKILL'')
       (snd (forward ''foo'' [] (handleData ''boom'' (create ''rp'' Undefined [] ''wd'' [] 42 False)))))
       ! fst (forward ''foo'' [] (handleData ''boom'' (create ''rp'' Undefined [] ''wd'' [] 42 False)))
     = Rejected (StrykerError ''Child process exited unexpectedly (code 1)'')
   \<and> \<not> sublist ''SIGKILL'' (message (StrykerError ''Child process exited unexpectedly (code 1)''))
   \<and> \<not> sublist ''boom'' (message (StrykerError ''Child process exited unexpectedly (code 1)''))"
proof -
  have "\<not> sublist ''SIGKILL'' (message (StrykerError ''Child process exited unexpectedly (code 1)''))"
    by code_simp
  moreover have "\<not> sublist ''boom'' (message (StrykerError ''Child process exited unexpectedly (code 1)''))"
    by code_simp
  ultimately show ?thesis
    by (simp add: model_defs exit_error_def string_of_code_def Number_toString_def digit_def)
qed

text \<open>C7, amended.  The error that is cached, and with which the pending calls are rejected, names
  the exit code only.  The description with the exit code, the signal (or "without signal") and
  the recent output goes to the debug log: the output is the last 10 chunks captured from stdout
  and stderr, or the note that they were empty.\<close>

theorem crash_error_names_the_code:
  assumes "run evs (create requirePath loggingContext plugins workingDirectory constructorArgs childPid trace) = Inr s"
  shows "currentError (handleUnexpectedExit code signal s)
           = Some (StrykerError (''Child process exited unexpectedly (code '' @ string_of_code code @ '')''))
       \<and> (\<forall>t. Some t \<in> set (workerTasks s) \<and> \<not> isResolved t
            \<longrightarrow> promises (handleUnexpectedExit code signal s) ! promise t
                  = Rejected (StrykerError (''Child process exited unexpectedly (code '' @ string_of_code code @ '')'')))
       \<and> logged (handleUnexpectedExit code signal s)
           = logged s @ [(Debug, ''Child process exited unexpectedly with exit code '' @ string_of_code code
                @ '' ('' @ signal_or signal @ ''). '' @ stdoutAndStderr (lastMessagesQueue s))]
       \<and> lastMessagesQueue s = drop (length (captured evs) - 10) (captured evs)
       \<and> (captured evs = [] \<longrightarrow> stdoutAndStderr (lastMessagesQueue s) = ''Stdout and stderr were empty.'')
       \<and> (captured evs \<noteq> [] \<longrightarrow> stdoutAndStderr (lastMessagesQueue s)
             = ''Last part of stdout and stderr was: '' @ EOL
                 @ join EOL (map (\<lambda>msg. CHR 0x09 # msg) (lastMessagesQueue s)))"
proof -
  let ?s' = "handleUnexpectedExit code signal s"
  let ?e = "StrykerError (''Child process exited unexpectedly (code '' @ string_of_code code @ '')'')"
  have e: "exit_error code = ?e" by (simp add: exit_error_def)
  have 1: "currentError ?s' = Some ?e"
    by (simp add: handleUnexpectedExit_unfold Let_def reject_unresolved_frame e)
  have wf: "wf_store s" using assms by (rule wf_store_reachable)
  have 2: "\<forall>t. Some t \<in> set (workerTasks s) \<and> \<not> isResolved t
            \<longrightarrow> promises ?s' ! promise t = Rejected ?e"
  proof (intro allI impI)
    fix t assume t: "Some t \<in> set (workerTasks s) \<and> \<not> isResolved t"
    then have "promise t \<in> set (task_promises (workerTasks s))" by (auto simp: set_task_promises)
    then have l: "promise t < length (promises s)" using wf by (simp add: wf_store_def)
    have p: "promises s ! promise t = Pending" using wf t by (simp add: wf_store_def)
    show "promises ?s' ! promise t = Rejected ?e"
      using handleUnexpectedExit_nth[OF l, of code signal] p t e by auto
  qed
  have 3: "logged ?s' = logged s @ [(Debug, ''Child process exited unexpectedly with exit code '' @ string_of_code code
                @ '' ('' @ signal_or signal @ ''). '' @ stdoutAndStderr (lastMessagesQueue s))]"
    by (simp add: handleUnexpectedExit_unfold Let_def reject_unresolved_frame exit_description_def)
  have 4: "lastMessagesQueue s = drop (length (captured evs) - 10) (captured evs)"
    using assms by (rule lastMessagesQueue_run)
  have 5: "captured evs = [] \<longrightarrow> stdoutAndStderr (lastMessagesQueue s) = ''Stdout and stderr were empty.''"
    using 4 by (simp add: stdoutAndStderr_def)
  have 6: "captured evs \<noteq> [] \<longrightarrow> stdoutAndStderr (lastMessagesQueue s)
             = ''Last part of stdout and stderr was: '' @ EOL
                 @ join EOL (map (\<lambda>msg. CHR 0x09 # msg) (lastMessagesQueue s))"
  proof
    assume ne: "captured evs \<noteq> []"
    then have "length (captured evs) - 10 < length (captured evs)" by (cases "captured evs") auto
    then have "lastMessagesQueue s \<noteq> []" using 4 by simp
    then show "stdoutAndStderr (lastMessagesQueue s)
             = ''Last part of stdout and stderr was: '' @ EOL
                 @ join EOL (map (\<lambda>msg. CHR 0x09 # msg) (lastMessagesQueue s))"
      by (simp add: stdoutAndStderr_def)
  qed
  show ?thesis
    by (rule conjI[OF 1 conjI[OF 2 conjI[OF 3 conjI[OF 4 conjI[OF 5 6]]]]])
qed

theorem crash_error_names_the_code_witness:
  "\<exists>s. run [OnData ''boom'', Invoke ''foo'' []] (create ''rp'' Undefined [] ''wd'' [] 42 False) = Inr s
     \<and> workerTasks s = [Some \<lparr>isResolved = False, promise = 1\<rparr>]
     \<and> promises s = [Pending, Pending]
     \<and> captured [OnData ''boom'', Invoke ''foo'' []] = [''boom'']
     \<and> currentError (handleUnexpectedExit (Some 1) (Some ''SIGKILL'') s)
          = Some (StrykerError ''Child process exited unexpectedly (code 1)'')
     \<and> promises (handleUnexpectedExit (Some 1) (Some ''SIGKILL'') s) ! 1
          = Rejected (StrykerError ''Child process exited unexpectedly (code 1)'')
     \<and> logged (handleUnexpectedExit (Some 1) (Some ''SIGKILL'') s)
          = [(Debug, ''Child process exited unexpectedly with exit code 1 (SIGKILL). Last part of stdout and stderr was: ''
                @ [CHR 0x0A, CHR 0x09] @ ''boom'')]
     \<and> captured [] = []
     \<and> stdoutAndStderr (lastMessagesQueue (create ''rp'' Undefined [] ''wd'' [] 42 False))
          = ''Stdout and stderr were empty.''"
proof -
  obtain s where r: "run [OnData ''boom'', Invoke ''foo'' []] (create ''rp'' Undefined [] ''wd'' [] 42 False) = Inr s"
    and w: "workerTasks s = [Some \<lparr>isResolved = False, promise = 1\<rparr>]"
    and p: "promises s = [Pending, Pending]"
    and l: "logged s = []" and q: "lastMessagesQueue s = [''boom'']"
    by (simp add: model_defs)
  have cp: "captured [OnData ''boom'', Invoke ''foo'' []] = [''boom'']" by simp
  have code: "string_of_code (Some 1) = ''1''"
    by (simp add: string_of_code_def Number_toString_def digit_def)
  note c = crash_error_names_the_code[OF r, of "Some 1" "Some ''SIGKILL''"]
  note c1 = c[THEN conjunct1]
  note c2 = c[THEN conjunct2, THEN conjunct1, rule_format, of "\<lparr>isResolved = False, promise = 1\<rparr>"]
  note c3 = c[THEN conjunct2, THEN conjunct2, THEN conjunct1]
  note c6 = c[THEN conjunct2, THEN conjunct2, THEN conjunct2, THEN conjunct2, THEN conjunct2]
  have a: "currentError (handleUnexpectedExit (Some 1) (Some ''SIGKILL'') s)
          = Some (StrykerError ''Child process exited unexpectedly (code 1)'')"
    using c1 code by simp
  have b: "promises (handleUnexpectedExit (Some 1) (Some ''SIGKILL'') s) ! 1
          = Rejected (StrykerError ''Child process exited unexpectedly (code 1)'')"
    using c2 w code by simp
  have d: "logged (handleUnexpectedExit (Some 1) (Some ''SIGKILL'') s)
          = [(Debug, ''Child process exited unexpectedly with exit code 1 (SIGKILL). Last part of stdout and stderr was: ''
                @ [CHR 0x0A, CHR 0x09] @ ''boom'')]"
    using c3 c6 cp q l code by (simp add: signal_or_def EOL_def)
  have r0: "run [] (create ''rp'' Undefined [] ''wd'' [] 42 False)
      = Inr (create ''rp'' Undefined [] ''wd'' [] 42 False)" by simp
  have c0: "captured [] = []" by simp
  note z = crash_error_names_the_code[OF r0, of None None, THEN conjunct2, THEN conjunct2, THEN conjunct2,
      THEN conjunct2, THEN conjunct1, rule_format, OF c0]
  show ?thesis using r w p cp a b d c0 z by blast
qed

subsection \<open>C5: the promise of \<^verbatim>\<open>dispose()\<close>\<close>





subsection \<open>C6: disposing again\<close>

text \<open>C6, as stated, fails for a second \<^verbatim>\<open>dispose()\<close> made before the first has completed: the
  handle is marked disposed only when \<^verbatim>\<open>killWorker\<close> runs, so the second call sends a second
  \<^verbatim>\<open>Dispose\<close> message and returns a pending promise.\<close>

theorem second_dispose_counterexample:
  "promises (snd (dispose (snd (dispose (create ''rp'' Undefined [] ''wd'' [] 42 False)))))
      ! fst (dispose (snd (dispose (create ''rp'' Undefined [] ''wd'' [] 42 False)))) = Pending
   \<and> sent (snd (dispose (create ''rp'' Undefined [] ''wd'' [] 42 False)))
      = [Init Undefined [] ''rp'' [] ''wd'', Dispose]
   \<and> sent (snd (dispose (snd (dispose (create ''rp'' Undefined [] ''wd'' [] 42 False)))))
      = [Init Undefined [] ''rp'' [] ''wd'', Dispose, Dispose]"
  by (simp add: model_defs)


text \<open>C6, amended.  \<^verbatim>\<open>dispose()\<close> on a handle that is marked disposed returns a promise that is
  already fulfilled, sends no message, kills nothing and changes nothing else but the exit
  listener, which it unsubscribes.  A handle is marked disposed by the exit handler (a crash) and
  by \<^verbatim>\<open>killWorker\<close> (a disposal that has completed).\<close>

theorem dispose_when_disposed:
  assumes "isDisposed s" and "dispose s = (p, s')"
  shows "promises s' ! p = Fulfilled Undefined
       \<and> promises s' = promises s @ [Fulfilled Undefined]
       \<and> sent s' = sent s \<and> killed s' = killed s \<and> isDisposed s'
       \<and> reactions s' = reactions s \<and> microtasks s' = microtasks s
       \<and> disposeTask s' = disposeTask s \<and> exitListener s' = False
       \<and> isDisposed (handleUnexpectedExit code signal u)
       \<and> isDisposed (killWorker u)"
  using assms dispose_disposed[OF assms(1)]
  by (auto simp: isDisposed_handleUnexpectedExit killWorker_def)

theorem dispose_when_disposed_witness:
  "\<exists>s p s'. run [CallDispose, OnMessage DisposeCompleted, Microtasks]
        (create ''rp'' Undefined [] ''wd'' [] 42 False) = Inr s
     \<and> isDisposed s \<and> killed s = [42] \<and> sent s = [Init Undefined [] ''rp'' [] ''wd'', Dispose]
     \<and> dispose s = (p, s')
     \<and> promises s' ! p = Fulfilled Undefined
     \<and> sent s' = [Init Undefined [] ''rp'' [] ''wd'', Dispose]
     \<and> killed s' = [42]"
proof -
  obtain s where r: "run [CallDispose, OnMessage DisposeCompleted, Microtasks]
        (create ''rp'' Undefined [] ''wd'' [] 42 False) = Inr s"
    and d: "isDisposed s" and k: "killed s = [42]" and m: "sent s = [Init Undefined [] ''rp'' [] ''wd'', Dispose]"
    by (simp add: model_defs drain.simps)
  obtain p s' where f: "dispose s = (p, s')" by (cases "dispose s")
  note c = dispose_when_disposed[OF d f, of None None s]
  have "promises s' ! p = Fulfilled Undefined" "sent s' = sent s" "killed s' = killed s"
    using c by blast+
  then show ?thesis using r d k m f by auto
qed

subsection \<open>Messages sent\<close>

lemma sent_run_job:
  "\<exists>ms. sent (run_job j s) = sent s @ ms \<and> (\<forall>m \<in> set ms. isCall m)"
  by (cases "(j, s)" rule: run_job.cases)
    (auto simp: send_def settle_promise_frame killWorker_def kill_def)

lemma sent_drain: "\<exists>ms. sent (drain s) = sent s @ ms \<and> (\<forall>m \<in> set ms. isCall m)"
proof (rule drain_invariant[where I = "\<lambda>u. \<exists>ms. sent u = sent s @ ms \<and> (\<forall>m \<in> set ms. isCall m)"])
  fix u :: ChildProcessProxy and job rest
  assume "\<exists>ms. sent u = sent s @ ms \<and> (\<forall>m \<in> set ms. isCall m)"
  then obtain ms where ms: "sent u = sent s @ ms" "\<forall>m \<in> set ms. isCall m" by blast
  obtain ms' where ms': "sent (run_job job (u\<lparr>microtasks := rest\<rparr>)) = sent (u\<lparr>microtasks := rest\<rparr>) @ ms'"
      "\<forall>m \<in> set ms'. isCall m"
    using sent_run_job by blast
  have "sent (run_job job (u\<lparr>microtasks := rest\<rparr>)) = sent s @ (ms @ ms')" using ms ms' by simp
  moreover have "\<forall>m \<in> set (ms @ ms'). isCall m" using ms ms' by auto
  ultimately show "\<exists>ms. sent (run_job job (u\<lparr>microtasks := rest\<rparr>)) = sent s @ ms \<and> (\<forall>m \<in> set ms. isCall m)"
    by blast
next
  show "\<exists>ms. sent s = sent s @ ms \<and> (\<forall>m \<in> set ms. isCall m)" by simp
qed

lemma isCall_not_others: "isCall m \<Longrightarrow> \<not> isInit m \<and> \<not> isDispose m"
  by (cases m) auto

lemma sent_step:
  assumes "step ev s = Inr s'"
  shows "\<exists>ms. sent s' = sent s @ ms \<and> (\<forall>m \<in> set ms. \<not> isInit m)
       \<and> length (filter isDispose ms) \<le> (if ev = CallDispose \<and> \<not> isDisposed s then 1 else 0)"
proof (cases ev)
  case (Invoke m a)
  then have "sent s' = sent s" using assms
    by (auto simp: forward_def Promise_reject_def new_Task_def new_promise_def register_def Let_def
        split: option.splits)
  then show ?thesis by simp
next
  case (OnMessage msg)
  then have "sent s' = sent s" using assms
    by (cases msg) (auto simp: Task_resolve_def Task_reject_def settle_promise_frame split: option.splits)
  then show ?thesis by simp
next
  case (OnData d)
  then have "sent s' = sent s" using assms by (auto simp: handleData_def Let_def)
  then show ?thesis by simp
next
  case (OnExit c sg)
  then have "sent s' = sent s" using assms
    by (auto simp: handleUnexpectedExit_unfold Let_def reject_unresolved_frame)
  then show ?thesis by simp
next
  case CallDispose
  show ?thesis
  proof (cases "isDisposed s")
    case True
    then have "sent s' = sent s" using assms CallDispose by (auto simp: dispose_disposed)
    then show ?thesis by simp
  next
    case False
    then have "sent s' = sent s @ [Dispose]" using assms CallDispose by (auto simp: dispose_fresh)
    then show ?thesis using False CallDispose by simp
  qed
next
  case Microtasks
  then obtain ms where "sent s' = sent s @ ms" "\<forall>m \<in> set ms. isCall m"
    using assms sent_drain[of s] by auto
  moreover have "filter isDispose ms = []" using calculation(2) isCall_not_others
    by (auto simp: filter_empty_conv)
  ultimately show ?thesis using isCall_not_others by auto
qed

lemma isDisposed_run_job: "isDisposed s \<Longrightarrow> isDisposed (run_job j s)"
  by (cases "(j, s)" rule: run_job.cases)
    (auto simp: send_def settle_promise_frame killWorker_def kill_def)

lemma isDisposed_step: "isDisposed s \<Longrightarrow> step ev s = Inr s' \<Longrightarrow> isDisposed s'"
proof (cases ev)
  case (Invoke m a)
  assume "isDisposed s" "step ev s = Inr s'"
  then show ?thesis using Invoke
    by (auto simp: forward_def Promise_reject_def new_Task_def new_promise_def register_def Let_def
        split: option.splits)
next
  case (OnMessage msg)
  assume "isDisposed s" "step ev s = Inr s'"
  then show ?thesis using OnMessage
    by (cases msg) (auto simp: Task_resolve_def Task_reject_def settle_promise_frame split: option.splits)
next
  case (OnData d)
  assume "isDisposed s" "step ev s = Inr s'"
  then show ?thesis using OnData by (auto simp: handleData_def Let_def)
next
  case (OnExit c sg)
  assume "isDisposed s" "step ev s = Inr s'"
  then show ?thesis using OnExit by (auto simp: isDisposed_handleUnexpectedExit)
next
  case CallDispose
  assume "isDisposed s" "step ev s = Inr s'"
  then show ?thesis using CallDispose by (auto simp: dispose_disposed)
next
  case Microtasks
  assume a: "isDisposed s" "step ev s = Inr s'"
  have "isDisposed (drain s)"
    by (rule drain_invariant[where I = isDisposed]) (use a in \<open>auto intro: isDisposed_run_job\<close>)
  then show ?thesis using a Microtasks by simp
qed

lemma disposed_run:
  "isDisposed s \<Longrightarrow> run evs s = Inr s' \<Longrightarrow>
     isDisposed s' \<and> filter isDispose (sent s') = filter isDispose (sent s)"
proof (induction evs arbitrary: s)
  case Nil
  then show ?case by simp
next
  case (Cons ev evs)
  then obtain s1 where s1: "step ev s = Inr s1" "run evs s1 = Inr s'" by (auto split: sum.splits)
  have d1: "isDisposed s1" using Cons.prems(1) s1(1) by (rule isDisposed_step)
  obtain ms where "sent s1 = sent s @ ms" "length (filter isDispose ms) \<le> 0"
    using sent_step[OF s1(1)] Cons.prems(1) by auto
  then have "filter isDispose (sent s1) = filter isDispose (sent s)" by simp
  then show ?case using Cons.IH[OF d1 s1(2)] by simp
qed

lemma sent_run:
  "run evs s = Inr s' \<Longrightarrow>
     \<exists>ms. sent s' = sent s @ ms \<and> (\<forall>m \<in> set ms. \<not> isInit m)
       \<and> length (filter isDispose ms) \<le> length (filter (\<lambda>ev. ev = CallDispose) evs)"
proof (induction evs arbitrary: s)
  case Nil
  then show ?case by simp
next
  case (Cons ev evs)
  then obtain s1 where s1: "step ev s = Inr s1" "run evs s1 = Inr s'" by (auto split: sum.splits)
  obtain ms1 where ms1: "sent s1 = sent s @ ms1" "\<forall>m \<in> set ms1. \<not> isInit m"
      "length (filter isDispose ms1) \<le> (if ev = CallDispose \<and> \<not> isDisposed s then 1 else 0)"
    using sent_step[OF s1(1)] by blast
  obtain ms2 where ms2: "sent s' = sent s1 @ ms2" "\<forall>m \<in> set ms2. \<not> isInit m"
      "length (filter isDispose ms2) \<le> length (filter (\<lambda>ev. ev = CallDispose) evs)"
    using Cons.IH[OF s1(2)] by blast
  have "sent s' = sent s @ (ms1 @ ms2)" using ms1 ms2 by simp
  moreover have "\<forall>m \<in> set (ms1 @ ms2). \<not> isInit m" using ms1 ms2 by auto
  moreover have "length (filter isDispose (ms1 @ ms2)) \<le> length (filter (\<lambda>ev. ev = CallDispose) (ev # evs))"
    using ms1(3) ms2(3) by (auto split: if_splits)
  ultimately show ?case by blast
qed

subsection \<open>C8: Init and Dispose messages\<close>

text \<open>C8, as stated, fails where it has at most one \<^verbatim>\<open>Dispose\<close> message for every sequence of
  \<^verbatim>\<open>dispose()\<close> calls: two calls in a row send two.\<close>

theorem dispose_twice_counterexample:
  "length (filter isDispose (sent (snd (dispose (snd (dispose (create ''rp'' Undefined [] ''wd'' [] 42 False))))))) = 2
   \<and> run [CallDispose, CallDispose] (create ''rp'' Undefined [] ''wd'' [] 42 False)
       = Inr (snd (dispose (snd (dispose (create ''rp'' Undefined [] ''wd'' [] 42 False)))))"
  by (simp add: model_defs)


text \<open>C8, amended.  In every run the first message sent is the \<^verbatim>\<open>Init\<close> message of the
  constructor and no other \<^verbatim>\<open>Init\<close> is ever sent, so exactly one \<^verbatim>\<open>Init\<close> precedes every
  \<^verbatim>\<open>Call\<close>.  There are at most as many \<^verbatim>\<open>Dispose\<close> messages as calls of \<^verbatim>\<open>dispose()\<close>, and once
  the handle is marked disposed no further \<^verbatim>\<open>Dispose\<close> message is sent, whatever happens.  A
  call of \<^verbatim>\<open>dispose()\<close> on a handle that is not marked disposed sends one \<^verbatim>\<open>Dispose\<close> message, also
  when a \<^verbatim>\<open>Dispose\<close> message has been sent before.\<close>

theorem init_first_dispose_bounded:
  assumes "run evs (create requirePath loggingContext plugins workingDirectory constructorArgs childPid trace) = Inr s"
  shows "(\<exists>rest. sent s = Init loggingContext plugins requirePath constructorArgs workingDirectory # rest
            \<and> (\<forall>m \<in> set rest. \<not> isInit m)
            \<and> length (filter isDispose rest) \<le> length (filter (\<lambda>ev. ev = CallDispose) evs))
       \<and> (isDisposed s \<longrightarrow>
            (\<forall>evs' s'. run evs' s = Inr s' \<longrightarrow> filter isDispose (sent s') = filter isDispose (sent s)))
       \<and> (\<not> isDisposed s \<longrightarrow>
            run [CallDispose] s = Inr (snd (dispose s))
          \<and> sent (snd (dispose s)) = sent s @ [Dispose]
          \<and> length (filter isDispose (sent (snd (dispose s)))) = length (filter isDispose (sent s)) + 1)"
proof -
  have "\<exists>rest. sent s = Init loggingContext plugins requirePath constructorArgs workingDirectory # rest
            \<and> (\<forall>m \<in> set rest. \<not> isInit m)
            \<and> length (filter isDispose rest) \<le> length (filter (\<lambda>ev. ev = CallDispose) evs)"
    using sent_run[OF assms] by (simp add: create_def)
  moreover have "isDisposed s \<longrightarrow>
            (\<forall>evs' s'. run evs' s = Inr s' \<longrightarrow> filter isDispose (sent s') = filter isDispose (sent s))"
    using disposed_run by blast
  moreover have "\<not> isDisposed s \<longrightarrow>
            run [CallDispose] s = Inr (snd (dispose s))
          \<and> sent (snd (dispose s)) = sent s @ [Dispose]
          \<and> length (filter isDispose (sent (snd (dispose s)))) = length (filter isDispose (sent s)) + 1"
    by (simp add: dispose_fresh)
  ultimately show ?thesis by blast
qed

theorem init_first_dispose_bounded_witness:
  "\<exists>s s' u. run [Invoke ''foo'' [], CallDispose, OnMessage Initialized, Microtasks, OnMessage DisposeCompleted, Microtasks]
        (create ''rp'' Undefined [] ''wd'' [] 42 False) = Inr s
     \<and> sent s = [Init Undefined [] ''rp'' [] ''wd'', Dispose, Call 0 ''foo'' []]
     \<and> isDisposed s
     \<and> run [CallDispose, Microtasks, CallDispose] s = Inr s'
     \<and> filter isDispose (sent s') = [Dispose]
     \<and> run [CallDispose] (create ''rp'' Undefined [] ''wd'' [] 42 False) = Inr u
     \<and> \<not> isDisposed u
     \<and> sent u = [Init Undefined [] ''rp'' [] ''wd'', Dispose]
     \<and> run [CallDispose] u = Inr (snd (dispose u))
     \<and> sent (snd (dispose u)) = [Init Undefined [] ''rp'' [] ''wd'', Dispose, Dispose]"
proof -
  obtain s where r: "run [Invoke ''foo'' [], CallDispose, OnMessage Initialized, Microtasks, OnMessage DisposeCompleted, Microtasks]
        (create ''rp'' Undefined [] ''wd'' [] 42 False) = Inr s"
    and m: "sent s = [Init Undefined [] ''rp'' [] ''wd'', Dispose, Call 0 ''foo'' []]"
    and d: "isDisposed s"
    by (simp add: model_defs drain.simps)
  obtain s' where r': "run [CallDispose, Microtasks, CallDispose] s = Inr s'" by simp
  note c = init_first_dispose_bounded[OF r, THEN conjunct2, THEN conjunct1, rule_format, OF d r']
  obtain u where ru: "run [CallDispose] (create ''rp'' Undefined [] ''wd'' [] 42 False) = Inr u"
    and nu: "\<not> isDisposed u" and mu: "sent u = [Init Undefined [] ''rp'' [] ''wd'', Dispose]"
    by (simp add: model_defs)
  note b = init_first_dispose_bounded[OF ru, THEN conjunct2, THEN conjunct2, rule_format, OF nu]
  have b1: "run [CallDispose] u = Inr (snd (dispose u))" using b by (rule conjunct1)
  have b2: "sent (snd (dispose u)) = [Init Undefined [] ''rp'' [] ''wd'', Dispose, Dispose]"
    using b[THEN conjunct2, THEN conjunct1] mu by simp
  have c': "filter isDispose (sent s') = [Dispose]" using c m by simp
  show ?thesis using r m d r' c' ru nu mu b1 b2 by blast
qed

end
